theory Spec2Isabelle
  imports Complex_Main "HOL-Library.Word" "HOL-Library.Sublist"
begin

unbundle bit_operations_syntax

section \<open>Supertonic TTS: the inference helper module\<close>

text \<open>
  A shallow embedding of the TypeScript helper module of the Supertonic TTS web
  application: text normalisation and tokenisation (\<open>UnicodeProcessor\<close>), text chunking
  (\<open>chunkText\<close>), latent sampling and the per-chunk inference pipeline
  (\<open>TextToSpeech\<close>), and the WAV encoder (\<open>writeWavFile\<close>).

  Conventions of the embedding.
  \<^item> A JavaScript string is its sequence of UTF-16 code units, a \<open>nat list\<close>
    (\<open>length\<close> is \<open>String.length\<close>); ASCII literals are written through \<open>str\<close>.
  \<^item> A finite JavaScript \<open>number\<close> is the \<open>real\<close> it denotes, and the rounding of
    each arithmetic operation to a double is a parameter of the functions that compute
    with numbers; an audio sample may also be an infinity or \<open>NaN\<close>. Counters, lengths
    and configuration values are \<open>nat\<close> or \<open>int\<close>, and their sums and products are
    exact, as they are in the source below \<open>2 ^ 53\<close>.
  \<^item> A thrown exception is the \<open>Inl\<close> branch of a sum; \<open>Inr\<close> is a normal return.
  \<^item> The four ONNX sessions, the progress callback, \<open>String.normalize\<close> and
    \<open>Math.random\<close> are parameters of the functions that use them.
\<close>

subsection \<open>Strings\<close>

type_synonym jsstring = "nat list"

definition str :: "string \<Rightarrow> jsstring" where
  "str s = map of_char s"

subsection \<open>Errors\<close>

text \<open>
  The exceptions of the module, one constructor per \<open>throw\<close> site or kind of runtime
  error: the two \<open>Error\<close>s of \<open>preprocessText\<close> and \<open>TextToSpeech.call\<close>, the
  \<open>Error\<close> of \<open>chunkText\<close> (with the \<open>typeof\<close> of its argument), the engine's
  \<open>RangeError\<close> for \<open>new Array(n)\<close> with a negative \<open>n\<close> and \<open>TypeError\<close> for a
  property read on \<open>undefined\<close>, a rejected ONNX session run, and an exception thrown by
  the progress callback.
\<close>

datatype error =
    InvalidLanguage jsstring
  | SingleStyleOnly
  | ExpectsString jsstring
  | RangeError
  | TypeError
  | BackendError jsstring
  | CallbackError jsstring

subsection \<open>Numbers\<close>

text \<open>
  A JavaScript \<open>number\<close> is an IEEE 754 binary64 value: a finite double, one of the two
  infinities, or \<open>NaN\<close>. A finite number is written as the real it denotes. Each
  arithmetic operation of the source (\<open>*\<close>, \<open>/\<close>, \<open>+\<close>, \<open>-\<close>) returns the exact
  result rounded to a double; this rounding is the parameter \<open>rnd\<close> of every function
  below that computes with numbers, so \<open>a * b\<close> of the source is \<open>rnd (a * b)\<close>.
\<close>

datatype number = Num real | PosInfinity | NegInfinity | NaN

text \<open>
  The rounding of binary64, for results within the range of the finite doubles: to the
  nearest multiple of the unit in the last place, ties to the even multiple. The unit is
  \<open>2 ^ (e - 52)\<close> for a number of binary exponent \<open>e\<close>, and \<open>2 ^ -1074\<close> below the
  normal range.
\<close>

definition roundHalfEven :: "real \<Rightarrow> int" where
  "roundHalfEven y =
     (if y - of_int \<lfloor>y\<rfloor> < 1 / 2 then \<lfloor>y\<rfloor>
      else if 1 / 2 < y - of_int \<lfloor>y\<rfloor> then \<lfloor>y\<rfloor> + 1
      else if even \<lfloor>y\<rfloor> then \<lfloor>y\<rfloor> else \<lfloor>y\<rfloor> + 1)"

definition exponentOf :: "real \<Rightarrow> int" where
  "exponentOf x = max \<lfloor>log 2 \<bar>x\<bar>\<rfloor> (- 1022)"

definition ulp :: "real \<Rightarrow> real" where
  "ulp x = 2 powi (exponentOf x - 52)"

definition roundDouble :: "real \<Rightarrow> real" where
  "roundDouble x = of_int (roundHalfEven (x / ulp x)) * ulp x"

text \<open>
  What the properties below use of a rounding: it is monotone, it leaves every integer of
  magnitude up to \<open>2 ^ 53\<close> as it is, and in the normal range its relative error is at
  most \<open>2 ^ -53\<close>.
\<close>

definition doubleRounding :: "(real \<Rightarrow> real) \<Rightarrow> bool" where
  "doubleRounding rnd \<longleftrightarrow>
     (\<forall>x y. x \<le> y \<longrightarrow> rnd x \<le> rnd y)
   \<and> (\<forall>n::int. \<bar>n\<bar> \<le> 2 ^ 53 \<longrightarrow> rnd (of_int n) = of_int n)
   \<and> (\<forall>x. 2 powi (- 1022) \<le> \<bar>x\<bar> \<longrightarrow> \<bar>rnd x - x\<bar> \<le> \<bar>x\<bar> / 2 ^ 53)"

subsection \<open>Text normalisation\<close>

definition AVAILABLE_LANGS :: "jsstring list" where
  "AVAILABLE_LANGS = [str ''en'', str ''ko'', str ''es'', str ''pt'', str ''fr'']"

definition isValidLang :: "jsstring \<Rightarrow> bool" where
  "isValidLang lang = (lang \<in> set AVAILABLE_LANGS)"

definition isHighSurrogate :: "nat \<Rightarrow> bool" where
  "isHighSurrogate c = (0xD800 \<le> c \<and> c \<le> 0xDBFF)"

definition isLowSurrogate :: "nat \<Rightarrow> bool" where
  "isLowSurrogate c = (0xDC00 \<le> c \<and> c \<le> 0xDFFF)"

definition surrogatePair :: "nat \<Rightarrow> nat \<Rightarrow> nat" where
  "surrogatePair h l = 0x10000 + (h - 0xD800) * 0x400 + (l - 0xDC00)"

definition emojiPattern :: "nat \<Rightarrow> bool" where
  "emojiPattern cp =
     ((0x1F600 \<le> cp \<and> cp \<le> 0x1F64F) \<or> (0x1F300 \<le> cp \<and> cp \<le> 0x1F5FF)
      \<or> (0x1F680 \<le> cp \<and> cp \<le> 0x1F6FF) \<or> (0x1F700 \<le> cp \<and> cp \<le> 0x1F77F)
      \<or> (0x1F780 \<le> cp \<and> cp \<le> 0x1F7FF) \<or> (0x1F800 \<le> cp \<and> cp \<le> 0x1F8FF)
      \<or> (0x1F900 \<le> cp \<and> cp \<le> 0x1F9FF) \<or> (0x1FA00 \<le> cp \<and> cp \<le> 0x1FA6F)
      \<or> (0x1FA70 \<le> cp \<and> cp \<le> 0x1FAFF) \<or> (0x2600 \<le> cp \<and> cp \<le> 0x26FF)
      \<or> (0x2700 \<le> cp \<and> cp \<le> 0x27BF) \<or> (0x1F1E6 \<le> cp \<and> cp \<le> 0x1F1FF))"

fun removeEmoji :: "jsstring \<Rightarrow> jsstring" where
  "removeEmoji (h # l # cs) =
     (if isHighSurrogate h \<and> isLowSurrogate l
      then (if emojiPattern (surrogatePair h l) then removeEmoji cs
            else h # l # removeEmoji cs)
      else if emojiPattern h then removeEmoji (l # cs)
      else h # removeEmoji (l # cs))"
| "removeEmoji [c] = (if emojiPattern c then [] else [c])"
| "removeEmoji [] = []"

function replaceAll :: "jsstring \<Rightarrow> jsstring \<Rightarrow> jsstring \<Rightarrow> jsstring" where
  "replaceAll k v [] = (if k = [] then v else [])"
| "replaceAll k v (c # cs) =
     (if k = [] then v @ c # replaceAll k v cs
      else if prefix k (c # cs) then v @ replaceAll k v (drop (length k) (c # cs))
      else c # replaceAll k v cs)"
  by pat_completeness auto
termination
  by (relation "measure (\<lambda>(k, v, t). length t)") auto

definition replacements :: "(jsstring \<times> jsstring) list" where
  "replacements =
     [([0x2013], str ''-''), ([0x2011], str ''-''), ([0x2014], str ''-''),
      (str ''_'', str '' ''),
      ([0x201C], [0x22]), ([0x201D], [0x22]), ([0x2018], [0x27]), ([0x2019], [0x27]),
      ([0xB4], [0x27]), ([0x60], [0x27]),
      (str ''['', str '' ''), (str '']'', str '' ''), (str ''|'', str '' ''),
      (str ''/'', str '' ''), (str ''#'', str '' ''),
      ([0x2192], str '' ''), ([0x2190], str '' '')]"

definition exprReplacements :: "(jsstring \<times> jsstring) list" where
  "exprReplacements =
     [(str ''@'', str '' at ''), (str ''e.g.,'', str ''for example, ''),
      (str ''i.e.,'', str ''that is, '')]"

definition applyReplacements :: "(jsstring \<times> jsstring) list \<Rightarrow> jsstring \<Rightarrow> jsstring" where
  "applyReplacements table text = fold (\<lambda>(k, v) t. replaceAll k v t) table text"

definition removeSymbols :: "jsstring \<Rightarrow> jsstring" where
  "removeSymbols text = filter (\<lambda>c. c \<notin> set [0x2665, 0x2606, 0x2661, 0xA9, 0x5C]) text"

definition fixSpacing :: "jsstring \<Rightarrow> jsstring" where
  "fixSpacing text =
     applyReplacements
       [(str '' ,'', str '',''), (str '' .'', str ''.''), (str '' !'', str ''!''),
        (str '' ?'', str ''?''), (str '' ;'', str '';''), (str '' :'', str '':''),
        ([0x20, 0x27], [0x27])] text"

fun includesStr :: "jsstring \<Rightarrow> jsstring \<Rightarrow> bool" where
  "includesStr k [] = (k = [])"
| "includesStr k (c # cs) = (prefix k (c # cs) \<or> includesStr k cs)"

fun replaceFirst :: "jsstring \<Rightarrow> jsstring \<Rightarrow> jsstring \<Rightarrow> jsstring" where
  "replaceFirst k v [] = (if k = [] then v else [])"
| "replaceFirst k v (c # cs) =
     (if prefix k (c # cs) then v @ drop (length k) (c # cs)
      else c # replaceFirst k v cs)"

lemma length_replaceFirst_double:
  "includesStr [q, q] t \<Longrightarrow> length (replaceFirst [q, q] [q] t) < length t"
  by (induction t) (auto simp: prefix_def)

function removeDuplicate :: "nat \<Rightarrow> jsstring \<Rightarrow> jsstring" where
  "removeDuplicate q text =
     (if includesStr [q, q] text then removeDuplicate q (replaceFirst [q, q] [q] text)
      else text)"
  by pat_completeness auto
termination
  by (relation "measure (\<lambda>(q, t). length t)") (auto simp: length_replaceFirst_double)

declare removeDuplicate.simps [simp del]

definition isWhitespace :: "nat \<Rightarrow> bool" where
  "isWhitespace c =
     (c \<in> set [0x09, 0x0A, 0x0B, 0x0C, 0x0D, 0x20, 0xA0, 0x1680, 0x2028, 0x2029,
                0x202F, 0x205F, 0x3000, 0xFEFF]
      \<or> (0x2000 \<le> c \<and> c \<le> 0x200A))"

function collapseWhitespace :: "jsstring \<Rightarrow> jsstring" where
  "collapseWhitespace [] = []"
| "collapseWhitespace (c # cs) =
     (if isWhitespace c then 0x20 # collapseWhitespace (dropWhile isWhitespace cs)
      else c # collapseWhitespace cs)"
  by pat_completeness auto
termination
  by (relation "measure length") (auto simp: length_dropWhile_le less_Suc_eq_le)

definition trim :: "jsstring \<Rightarrow> jsstring" where
  "trim text = rev (dropWhile isWhitespace (rev (dropWhile isWhitespace text)))"

definition terminalChars :: "nat list" where
  "terminalChars =
     [0x2E, 0x21, 0x3F, 0x3B, 0x3A, 0x2C, 0x27, 0x22, 0x27, 0x29, 0x5D, 0x7D,
      0x2026, 0x3002, 0x300D, 0x300F, 0x3011, 0x3009, 0x300B, 0x203A, 0xBB]"

definition endsWithTerminal :: "jsstring \<Rightarrow> bool" where
  "endsWithTerminal text = (text \<noteq> [] \<and> last text \<in> set terminalChars)"


definition ensureTerminal :: "jsstring \<Rightarrow> jsstring" where
  "ensureTerminal text = (if endsWithTerminal text then text else text @ str ''.'')"

definition cleanText :: "(jsstring \<Rightarrow> jsstring) \<Rightarrow> jsstring \<Rightarrow> jsstring" where
  "cleanText nfkd text =
     ensureTerminal (trim (collapseWhitespace
       (removeDuplicate 0x60 (removeDuplicate 0x27 (removeDuplicate 0x22
         (fixSpacing (applyReplacements exprReplacements (removeSymbols
           (applyReplacements replacements (removeEmoji (nfkd text)))))))))))"

definition wrapLang :: "jsstring \<Rightarrow> jsstring \<Rightarrow> jsstring" where
  "wrapLang lang text = str ''<'' @ lang @ str ''>'' @ text @ str ''</'' @ lang @ str ''>''"

definition preprocessText ::
  "(jsstring \<Rightarrow> jsstring) \<Rightarrow> jsstring \<Rightarrow> jsstring \<Rightarrow> error + jsstring" where
  "preprocessText nfkd text lang =
     (if \<not> isValidLang lang then Inl (InvalidLanguage lang)
      else Inr (wrapLang lang (cleanText nfkd text)))"

fun occurrences :: "jsstring \<Rightarrow> jsstring \<Rightarrow> nat" where
  "occurrences k [] = (if k = [] then 1 else 0)"
| "occurrences k (c # cs) = (if prefix k (c # cs) then 1 else 0) + occurrences k cs"

subsection \<open>Tokenisation and masks\<close>

definition Math_max :: "'a::linorder list \<Rightarrow> 'a option" where
  "Math_max xs = (case xs of [] \<Rightarrow> None | x # ys \<Rightarrow> Some (fold max ys x))"

definition codePointAt :: "jsstring \<Rightarrow> nat \<Rightarrow> nat option" where
  "codePointAt s j =
     (if j < length s
      then (if isHighSurrogate (s ! j) \<and> Suc j < length s \<and> isLowSurrogate (s ! Suc j)
            then Some (surrogatePair (s ! j) (s ! Suc j))
            else Some (s ! j))
      else None)"

definition tokenId :: "int list \<Rightarrow> jsstring \<Rightarrow> nat \<Rightarrow> int" where
  "tokenId indexer s j =
     (case codePointAt s j of
        Some codePoint \<Rightarrow> (if codePoint < length indexer then indexer ! codePoint else - 1)
      | None \<Rightarrow> - 1)"

definition idRow :: "int list \<Rightarrow> nat \<Rightarrow> jsstring \<Rightarrow> int list" where
  "idRow indexer maxLen s =
     fold (\<lambda>j row. row[j := tokenId indexer s j]) [0..<length s] (replicate maxLen 0)"

definition maskRow :: "int \<Rightarrow> nat \<Rightarrow> real list" where
  "maskRow len actualMaxLen =
     fold (\<lambda>j row. row[j := 1]) [0..<nat (min len (int actualMaxLen))]
       (replicate actualMaxLen 0)"

definition lengthToMask :: "int list \<Rightarrow> int option \<Rightarrow> error + real list list list" where
  "lengthToMask lengths maxLen =
     (case lengths of
        [] \<Rightarrow> Inr []
      | l # ls \<Rightarrow>
          (let actualMaxLen =
                 (case maxLen of
                    Some m \<Rightarrow> if m \<noteq> 0 then m else fold max ls l
                  | None \<Rightarrow> fold max ls l)
           in if actualMaxLen < 0 then Inl RangeError
              else Inr (map (\<lambda>len. [maskRow len (nat actualMaxLen)]) lengths)))"

definition getTextMask :: "int list \<Rightarrow> error + real list list list" where
  "getTextMask textIdsLengths = lengthToMask textIdsLengths (Math_max textIdsLengths)"

definition langAt :: "jsstring list \<Rightarrow> nat \<Rightarrow> jsstring" where
  "langAt langList i = (if i < length langList then langList ! i else str ''undefined'')"

fun processTexts ::
  "(jsstring \<Rightarrow> jsstring) \<Rightarrow> jsstring list \<Rightarrow> jsstring list \<Rightarrow> nat \<Rightarrow> error + jsstring list" where
  "processTexts nfkd [] langList i = Inr []"
| "processTexts nfkd (s # rest) langList i =
     (case preprocessText nfkd s (langAt langList i) of
        Inl e \<Rightarrow> Inl e
      | Inr p \<Rightarrow>
          (case processTexts nfkd rest langList (Suc i) of
             Inl e \<Rightarrow> Inl e
           | Inr ps \<Rightarrow> Inr (p # ps)))"

definition tokenize :: "int list \<Rightarrow> jsstring list \<Rightarrow> error + (int list list \<times> real list list list)" where
  "tokenize indexer processedTexts =
     (let textIdsLengths = map length processedTexts
      in case Math_max textIdsLengths of
           None \<Rightarrow> Inr ([], [])
         | Some maxLen \<Rightarrow>
             (let textIds = map (idRow indexer maxLen) processedTexts
              in case getTextMask (map int textIdsLengths) of
                   Inl e \<Rightarrow> Inl e
                 | Inr textMask \<Rightarrow> Inr (textIds, textMask)))"

definition UnicodeProcessor_call ::
  "(jsstring \<Rightarrow> jsstring) \<Rightarrow> int list \<Rightarrow> jsstring list \<Rightarrow> jsstring list
     \<Rightarrow> error + (int list list \<times> real list list list)" where
  "UnicodeProcessor_call nfkd indexer textList langList =
     (case processTexts nfkd textList langList 0 of
        Inl e \<Rightarrow> Inl e
      | Inr processedTexts \<Rightarrow> tokenize indexer processedTexts)"

subsection \<open>Chunking\<close>

datatype jsvalue = JSString jsstring | JSOther jsstring

definition afterLastNewline :: "jsstring \<Rightarrow> jsstring" where
  "afterLastNewline run = rev (takeWhile (\<lambda>c. c \<noteq> 0x0A) (rev run))"

lemma length_afterLastNewline: "length (afterLastNewline run) \<le> length run"
  unfolding afterLastNewline_def
  by (metis length_rev length_takeWhile_le)

function splitParagraphs :: "jsstring \<Rightarrow> jsstring \<Rightarrow> jsstring list" where
  "splitParagraphs acc [] = [acc]"
| "splitParagraphs acc (c # cs) =
     (if c = 0x0A \<and> 0x0A \<in> set (takeWhile isWhitespace cs)
      then acc # splitParagraphs []
             (afterLastNewline (takeWhile isWhitespace cs) @ dropWhile isWhitespace cs)
      else splitParagraphs (acc @ [c]) cs)"
  by pat_completeness auto
termination
proof (relation "measure (\<lambda>(acc, s). length s)")
  fix acc :: jsstring and c :: nat and cs :: jsstring
  have "length (afterLastNewline (takeWhile isWhitespace cs)) \<le> length (takeWhile isWhitespace cs)"
    by (rule length_afterLastNewline)
  moreover have "length (takeWhile isWhitespace cs) + length (dropWhile isWhitespace cs) = length cs"
    by (metis length_append takeWhile_dropWhile_id)
  ultimately show "(([], afterLastNewline (takeWhile isWhitespace cs) @ dropWhile isWhitespace cs),
      (acc, c # cs)) \<in> measure (\<lambda>(acc, s). length s)"
    by simp
qed simp_all

definition abbreviations :: "jsstring list" where
  "abbreviations =
     [str ''Mr.'', str ''Mrs.'', str ''Ms.'', str ''Dr.'', str ''Prof.'', str ''Sr.'',
      str ''Jr.'', str ''Ph.D.'', str ''etc.'', str ''e.g.'', str ''i.e.'', str ''vs.'',
      str ''Inc.'', str ''Ltd.'', str ''Co.'', str ''Corp.'', str ''St.'', str ''Ave.'',
      str ''Blvd.'']"

definition isWordChar :: "nat \<Rightarrow> bool" where
  "isWordChar c =
     ((0x41 \<le> c \<and> c \<le> 0x5A) \<or> (0x61 \<le> c \<and> c \<le> 0x7A) \<or> (0x30 \<le> c \<and> c \<le> 0x39)
      \<or> c = 0x5F)"

definition afterAbbreviation :: "jsstring \<Rightarrow> bool" where
  "afterAbbreviation before = (\<exists>a \<in> set abbreviations. prefix (rev a) before)"

fun afterInitial :: "jsstring \<Rightarrow> bool" where
  "afterInitial (d # l # rest) =
     (d = 0x2E \<and> 0x41 \<le> l \<and> l \<le> 0x5A
      \<and> (case rest of [] \<Rightarrow> True | w # _ \<Rightarrow> \<not> isWordChar w))"
| "afterInitial _ = False"

definition sentenceBoundary :: "jsstring \<Rightarrow> bool" where
  "sentenceBoundary before =
     (\<not> afterAbbreviation before \<and> \<not> afterInitial before
      \<and> (case before of [] \<Rightarrow> False | p # _ \<Rightarrow> p \<in> set [0x2E, 0x21, 0x3F]))"

function splitSentences :: "jsstring \<Rightarrow> jsstring \<Rightarrow> jsstring \<Rightarrow> jsstring list" where
  "splitSentences before acc [] = [acc]"
| "splitSentences before acc (c # cs) =
     (if isWhitespace c \<and> sentenceBoundary before
      then acc # splitSentences (rev (takeWhile isWhitespace cs) @ c # before) []
                   (dropWhile isWhitespace cs)
      else splitSentences (c # before) (acc @ [c]) cs)"
  by pat_completeness auto
termination
  by (relation "measure (\<lambda>(before, acc, s). length s)")
    (auto simp: length_dropWhile_le less_Suc_eq_le)

fun packSentences :: "int \<Rightarrow> jsstring \<Rightarrow> jsstring list \<Rightarrow> jsstring list" where
  "packSentences maxLen currentChunk [] =
     (if currentChunk \<noteq> [] then [trim currentChunk] else [])"
| "packSentences maxLen currentChunk (sentence # rest) =
     (if int (length currentChunk) + int (length sentence) + 1 \<le> maxLen
      then packSentences maxLen
             (currentChunk @ (if currentChunk \<noteq> [] then str '' '' else []) @ sentence) rest
      else (if currentChunk \<noteq> [] then [trim currentChunk] else [])
             @ packSentences maxLen sentence rest)"

definition paragraphsOf :: "jsstring \<Rightarrow> jsstring list" where
  "paragraphsOf s = filter (\<lambda>p. trim p \<noteq> []) (splitParagraphs [] (trim s))"

definition sentencesOf :: "jsstring \<Rightarrow> jsstring list" where
  "sentencesOf paragraph = splitSentences [] [] (trim paragraph)"

definition chunkText :: "jsvalue \<Rightarrow> int \<Rightarrow> error + jsstring list" where
  "chunkText v maxLen =
     (case v of
        JSOther ty \<Rightarrow> Inl (ExpectsString ty)
      | JSString s \<Rightarrow>
          Inr (concat (map (\<lambda>paragraph. packSentences maxLen [] (sentencesOf paragraph))
                           (paragraphsOf s))))"

subsection \<open>Latent sampling\<close>

text \<open>
  \<open>Math.floor(d * sampleRate)\<close> and \<open>Math.floor((len + chunkSize - 1) / chunkSize)\<close>, each
  operation rounded as the source computes it.
\<close>

definition wavLengthOf :: "(real \<Rightarrow> real) \<Rightarrow> nat \<Rightarrow> real \<Rightarrow> int" where
  "wavLengthOf rnd sampleRate d = \<lfloor>rnd (d * real sampleRate)\<rfloor>"

definition latentLengthOf :: "(real \<Rightarrow> real) \<Rightarrow> int \<Rightarrow> nat \<Rightarrow> int" where
  "latentLengthOf rnd len chunkSize =
     \<lfloor>rnd (rnd (rnd (real_of_int len + real chunkSize) - 1) / real chunkSize)\<rfloor>"

text \<open>
  The Box-Muller value of two random numbers, written with the exact functions; no property
  below depends on its value.
\<close>

definition gaussian :: "real \<Rightarrow> real \<Rightarrow> real" where
  "gaussian r1 r2 =
     (let u1 = max 0.0001 r1; u2 = r2
      in sqrt (- 2 * ln u1) * cos (2 * pi * u2))"

text \<open>
  \<open>TextToSpeech.sampleNoisyLatent\<close>. \<open>random\<close> is the stream of the values that
  \<open>Math.random\<close> returns, consumed two per latent entry; the stream left over is returned
  with the result. A chunk size of zero makes the latent length infinite or \<open>NaN\<close>, with
  which the source returns no latent; the model reports it as \<open>RangeError\<close>.
\<close>

definition sampleNoisyLatent ::
  "(real \<Rightarrow> real) \<Rightarrow> (nat \<Rightarrow> real) \<Rightarrow> real list \<Rightarrow> nat \<Rightarrow> nat \<Rightarrow> nat \<Rightarrow> nat
     \<Rightarrow> error + (real list list list \<times> real list list list \<times> (nat \<Rightarrow> real))" where
  "sampleNoisyLatent rnd random duration sampleRate baseChunkSize chunkCompress latentDim =
     (case Math_max duration of
        None \<Rightarrow> Inr ([], [], random)
      | Some maxDur \<Rightarrow>
          (let bsz = length duration;
               wavLenMax = wavLengthOf rnd sampleRate maxDur;
               wavLengths = map (wavLengthOf rnd sampleRate) duration;
               chunkSize = baseChunkSize * chunkCompress;
               latentLen = latentLengthOf rnd wavLenMax chunkSize;
               latentDimVal = latentDim * chunkCompress;
               T = nat latentLen;
               xt = map (\<lambda>b. map (\<lambda>d. map (\<lambda>t.
                      gaussian (random (2 * ((b * latentDimVal + d) * T + t)))
                               (random (2 * ((b * latentDimVal + d) * T + t) + 1)))
                      [0..<T]) [0..<latentDimVal]) [0..<bsz];
               latentLengths = map (\<lambda>len. latentLengthOf rnd len chunkSize) wavLengths
           in if chunkSize = 0 then Inl RangeError
              else case lengthToMask latentLengths (Some latentLen) of
                     Inl e \<Rightarrow> Inl e
                   | Inr latentMask \<Rightarrow>
                       Inr (map (\<lambda>b. map (\<lambda>d. map (\<lambda>t.
                              xt ! b ! d ! t * latentMask ! b ! 0 ! t)
                              [0..<T]) [0..<latentDimVal]) [0..<bsz],
                            latentMask,
                            \<lambda>i. random (i + 2 * (bsz * latentDimVal * T)))))"

text \<open>
  The masked latent in closed form: entry \<open>(b, d, t)\<close> is the Gaussian value drawn for
  it, or zero from the latent length of item \<open>b\<close> on.
\<close>

definition maskedLatent ::
  "(real \<Rightarrow> real) \<Rightarrow> (nat \<Rightarrow> real) \<Rightarrow> real list \<Rightarrow> nat \<Rightarrow> nat \<Rightarrow> nat \<Rightarrow> nat
     \<Rightarrow> real list list list" where
  "maskedLatent rnd random duration sampleRate chunkSize latentDimVal latentLen =
     map (\<lambda>b. map (\<lambda>d. map (\<lambda>t.
            gaussian (random (2 * ((b * latentDimVal + d) * latentLen + t)))
                     (random (2 * ((b * latentDimVal + d) * latentLen + t) + 1))
            * (if int t < latentLengthOf rnd (wavLengthOf rnd sampleRate (duration ! b)) chunkSize
               then 1 else 0))
          [0..<latentLen]) [0..<latentDimVal]) [0..<length duration]"

subsection \<open>Synthesis pipeline\<close>

text \<open>
  \<open>TextToSpeech._infer\<close> and \<open>TextToSpeech.call\<close>. The four ONNX sessions, the
  NFKD normalization and the configuration are fields of the engine record; an
  \<open>ort.Tensor\<close> is the pair of its flat data and its dims. A session run either fails with
  an error or returns the data of its output tensor. The state threaded through a call holds
  the stream of \<open>Math.random\<close> values still to be drawn and the trace of the external calls
  made so far (session runs and progress callback invocations), in order.

  An entry of the reshaped latent read beyond the end of the estimator's output is
  \<open>undefined\<close> in the source, which \<open>Float32Array\<close> stores as \<open>NaN\<close>. A progress
  callback returns \<open>None\<close> when it returns normally and \<open>Some thrown\<close> when it
  throws; the source calls it outside any \<open>try\<close>. Division of the durations by a
  \<open>speed\<close> of zero leaves no finite duration, from which no latent length can be
  computed; the model reports it as \<open>RangeError\<close>. The durations that a session returns
  and the numbers passed to a call are finite.
\<close>

type_synonym 'a tensor = "'a list \<times> nat list"

record Style =
  style_ttl :: "real tensor"
  style_dp :: "real tensor"

record TextToSpeech =
  cfg_sample_rate :: nat
  cfg_base_chunk_size :: nat
  cfg_chunk_compress_factor :: nat
  cfg_latent_dim :: nat
  tp_indexer :: "int list"
  tp_normalize :: "jsstring \<Rightarrow> jsstring"
  dpOrt :: "int tensor \<Rightarrow> real tensor \<Rightarrow> real tensor \<Rightarrow> error + real list"
  textEncOrt :: "int tensor \<Rightarrow> real tensor \<Rightarrow> real tensor \<Rightarrow> error + real tensor"
  vectorEstOrt ::
    "number tensor \<Rightarrow> real tensor \<Rightarrow> real tensor \<Rightarrow> real tensor \<Rightarrow> real tensor
       \<Rightarrow> real tensor \<Rightarrow> real tensor \<Rightarrow> error + real list"
  vocoderOrt :: "number tensor \<Rightarrow> error + real list"

datatype event =
    DurationPredictorRun
  | TextEncoderRun
  | ProgressCall nat int
  | VectorEstimatorRun nat
  | VocoderRun "number tensor"

record pstate =
  st_random :: "nat \<Rightarrow> real"
  st_trace :: "event list"

definition emit :: "event \<Rightarrow> pstate \<Rightarrow> pstate" where
  "emit e st = st\<lparr>st_trace := st_trace st @ [e]\<rparr>"

type_synonym latent = "number list list list"

definition shapeOf :: "'a list list list \<Rightarrow> error + (nat \<times> nat)" where
  "shapeOf xt =
     (case xt of
        [] \<Rightarrow> Inl TypeError
      | b0 # _ \<Rightarrow> (case b0 of [] \<Rightarrow> Inl TypeError | r0 # _ \<Rightarrow> Inr (length b0, length r0)))"

definition denoisedAt :: "real list \<Rightarrow> nat \<Rightarrow> number" where
  "denoisedAt denoised idx = (if idx < length denoised then Num (denoised ! idx) else NaN)"

definition reshape3 :: "real list \<Rightarrow> nat \<Rightarrow> nat \<Rightarrow> nat \<Rightarrow> latent" where
  "reshape3 denoised bsz latentDim latentLen =
     map (\<lambda>b. map (\<lambda>d. map (\<lambda>t. denoisedAt denoised ((b * latentDim + d) * latentLen + t))
       [0..<latentLen]) [0..<latentDim]) [0..<bsz]"

type_synonym callback = "nat \<Rightarrow> int \<Rightarrow> jsstring option"

definition denoiseStep ::
  "TextToSpeech \<Rightarrow> Style \<Rightarrow> real tensor \<Rightarrow> real tensor \<Rightarrow> real tensor \<Rightarrow> nat \<Rightarrow> int
     \<Rightarrow> callback option \<Rightarrow> nat \<Rightarrow> latent \<Rightarrow> pstate \<Rightarrow> pstate \<times> (error + latent)" where
  "denoiseStep tts style textEmb latentMaskTensor textMaskTensor bsz totalStep
       progressCallback step xt st =
     (let called =
            (case progressCallback of
               None \<Rightarrow> (st, None)
             | Some f \<Rightarrow> (emit (ProgressCall (step + 1) totalStep) st, f (step + 1) totalStep))
      in case called of
           (st1, Some thrown) \<Rightarrow> (st1, Inl (CallbackError thrown))
         | (st1, None) \<Rightarrow>
             (case shapeOf xt of
                Inl e \<Rightarrow> (st1, Inl e)
              | Inr (latentDim, latentLen) \<Rightarrow>
                  (let currentStepTensor = (replicate bsz (real step), [bsz]);
                       totalStepTensor = (replicate bsz (real_of_int totalStep), [bsz]);
                       xtTensor = (concat (concat xt), [bsz, latentDim, latentLen]);
                       st2 = emit (VectorEstimatorRun step) st1
                   in case vectorEstOrt tts xtTensor textEmb (style_ttl style) latentMaskTensor
                             textMaskTensor currentStepTensor totalStepTensor of
                        Inl e \<Rightarrow> (st2, Inl e)
                      | Inr denoised \<Rightarrow>
                          (st2, Inr (reshape3 denoised bsz latentDim latentLen)))))"

function denoiseLoop ::
  "(nat \<Rightarrow> latent \<Rightarrow> pstate \<Rightarrow> pstate \<times> (error + latent)) \<Rightarrow> int \<Rightarrow> nat \<Rightarrow> latent \<Rightarrow> pstate
     \<Rightarrow> pstate \<times> (error + latent)" where
  "denoiseLoop body totalStep step xt st =
     (if int step < totalStep
      then (case body step xt st of
              (st', Inl e) \<Rightarrow> (st', Inl e)
            | (st', Inr xt') \<Rightarrow> denoiseLoop body totalStep (Suc step) xt' st')
      else (st, Inr xt))"
  by pat_completeness auto
termination
  by (relation "measure (\<lambda>(body, totalStep, step, xt, st). nat (totalStep - int step))") auto

declare denoiseLoop.simps [simp del]

definition vocode ::
  "TextToSpeech \<Rightarrow> nat \<Rightarrow> latent \<Rightarrow> pstate \<Rightarrow> pstate \<times> (error + real list)" where
  "vocode tts bsz xt st =
     (case shapeOf xt of
        Inl e \<Rightarrow> (st, Inl e)
      | Inr (latentDim, latentLen) \<Rightarrow>
          (let finalXtTensor = (concat (concat xt), [bsz, latentDim, latentLen]);
               st' = emit (VocoderRun finalXtTensor) st
           in case vocoderOrt tts finalXtTensor of
                Inl e \<Rightarrow> (st', Inl e)
              | Inr wav \<Rightarrow> (st', Inr wav)))"

definition denoiseAndVocode ::
  "(real \<Rightarrow> real) \<Rightarrow> TextToSpeech \<Rightarrow> Style \<Rightarrow> real tensor \<Rightarrow> real tensor \<Rightarrow> nat \<Rightarrow> int \<Rightarrow> callback option
     \<Rightarrow> real list \<Rightarrow> pstate \<Rightarrow> pstate \<times> (error + real list)" where
  "denoiseAndVocode rnd tts style textEmb textMaskTensor bsz totalStep progressCallback
       duration st =
     (case sampleNoisyLatent rnd (st_random st) duration (cfg_sample_rate tts)
             (cfg_base_chunk_size tts) (cfg_chunk_compress_factor tts) (cfg_latent_dim tts) of
        Inl e \<Rightarrow> (st, Inl e)
      | Inr (initialXt, latentMask, random') \<Rightarrow>
          (case latentMask of
             [] \<Rightarrow> (st\<lparr>st_random := random'\<rparr>, Inl TypeError)
           | m0 # _ \<Rightarrow>
               (let latentMaskTensor =
                      (concat (concat latentMask), [bsz, 1, length (latentMask ! 0 ! 0)])
                in case denoiseLoop
                          (denoiseStep tts style textEmb latentMaskTensor textMaskTensor bsz
                             totalStep progressCallback)
                          totalStep 0 (map (map (map Num)) initialXt)
                          (st\<lparr>st_random := random'\<rparr>) of
                     (st', Inl e) \<Rightarrow> (st', Inl e)
                   | (st', Inr xt) \<Rightarrow> vocode tts bsz xt st')))"

definition infer ::
  "(real \<Rightarrow> real) \<Rightarrow> TextToSpeech \<Rightarrow> jsstring list \<Rightarrow> jsstring list \<Rightarrow> Style \<Rightarrow> int \<Rightarrow> real
     \<Rightarrow> callback option \<Rightarrow> pstate \<Rightarrow> pstate \<times> (error + (real list \<times> real list))" where
  "infer rnd tts textList langList style totalStep speed progressCallback st =
     (case UnicodeProcessor_call (tp_normalize tts) (tp_indexer tts) textList langList of
        Inl e \<Rightarrow> (st, Inl e)
      | Inr (textIds, textMask) \<Rightarrow>
          (case textIds of
             [] \<Rightarrow> (st, Inl TypeError)
           | ids0 # _ \<Rightarrow>
               (let bsz = length textList;
                    textIdsTensor = (concat textIds, [bsz, length ids0]);
                    textMaskTensor =
                      (concat (concat textMask), [bsz, 1, length (textMask ! 0 ! 0)]);
                    st1 = emit DurationPredictorRun st
                in case dpOrt tts textIdsTensor (style_dp style) textMaskTensor of
                     Inl e \<Rightarrow> (st1, Inl e)
                   | Inr rawDuration \<Rightarrow>
                       (let duration = map (\<lambda>d. rnd (d / speed)) rawDuration;
                            st2 = emit TextEncoderRun st1
                        in case textEncOrt tts textIdsTensor (style_ttl style) textMaskTensor of
                             Inl e \<Rightarrow> (st2, Inl e)
                           | Inr textEmb \<Rightarrow>
                               (if speed = 0 then (st2, Inl RangeError)
                                else case denoiseAndVocode rnd tts style textEmb textMaskTensor
                                            bsz totalStep progressCallback duration st2 of
                                       (st', Inl e) \<Rightarrow> (st', Inl e)
                                     | (st', Inr wav) \<Rightarrow> (st', Inr (wav, duration)))))))"

text \<open>
  The body of the loop of \<open>call\<close> after \<open>_infer\<close> has returned: the accumulator is
  seeded while \<open>wavCat\<close> is empty, and extended by the silence and the chunk otherwise.
\<close>

definition accumulate ::
  "(real \<Rightarrow> real) \<Rightarrow> nat \<Rightarrow> real \<Rightarrow> real list \<times> real \<Rightarrow> real list \<times> real list
     \<Rightarrow> error + (real list \<times> real)" where
  "accumulate rnd sampleRate silenceDuration acc chunkResult =
     (case (acc, chunkResult) of
        ((wavCat, durCat), (wav, duration)) \<Rightarrow>
          (if length wavCat = 0 then Inr (wav, hd duration)
           else (let silenceLen = \<lfloor>rnd (silenceDuration * real sampleRate)\<rfloor>
                 in if silenceLen < 0 then Inl RangeError
                    else Inr (wavCat @ replicate (nat silenceLen) 0 @ wav,
                              rnd (durCat + rnd (hd duration + silenceDuration))))))"

fun synthesizeChunks ::
  "(real \<Rightarrow> real) \<Rightarrow> TextToSpeech \<Rightarrow> jsstring \<Rightarrow> Style \<Rightarrow> int \<Rightarrow> real \<Rightarrow> real \<Rightarrow> callback option
     \<Rightarrow> jsstring list \<Rightarrow> real list \<times> real \<Rightarrow> pstate
     \<Rightarrow> pstate \<times> (error + (real list \<times> real))" where
  "synthesizeChunks rnd tts lang style totalStep speed silenceDuration progressCallback [] acc
       st =
     (st, Inr acc)"
| "synthesizeChunks rnd tts lang style totalStep speed silenceDuration progressCallback
       (chunk # rest) acc st =
     (case infer rnd tts [chunk] [lang] style totalStep speed progressCallback st of
        (st', Inl e) \<Rightarrow> (st', Inl e)
      | (st', Inr chunkResult) \<Rightarrow>
          (case accumulate rnd (cfg_sample_rate tts) silenceDuration acc chunkResult of
             Inl e \<Rightarrow> (st', Inl e)
           | Inr acc' \<Rightarrow>
               synthesizeChunks rnd tts lang style totalStep speed silenceDuration
                 progressCallback rest acc' st'))"

definition TextToSpeech_call ::
  "(real \<Rightarrow> real) \<Rightarrow> TextToSpeech \<Rightarrow> jsvalue \<Rightarrow> jsstring \<Rightarrow> Style \<Rightarrow> int \<Rightarrow> real \<Rightarrow> real \<Rightarrow> callback option
     \<Rightarrow> pstate \<Rightarrow> pstate \<times> (error + (real list \<times> real list))" where
  "TextToSpeech_call rnd tts v lang style totalStep speed silenceDuration progressCallback st =
     (if (case snd (style_ttl style) of [] \<Rightarrow> True | d0 # _ \<Rightarrow> d0 \<noteq> 1)
      then (st, Inl SingleStyleOnly)
      else (let maxLen = (if lang = str ''ko'' then 120 else 300)
            in case chunkText v maxLen of
                 Inl e \<Rightarrow> (st, Inl e)
               | Inr textList \<Rightarrow>
                   (case synthesizeChunks rnd tts lang style totalStep speed silenceDuration
                           progressCallback textList ([], 0) st of
                      (st', Inl e) \<Rightarrow> (st', Inl e)
                    | (st', Inr (wavCat, durCat)) \<Rightarrow> (st', Inr (wavCat, [durCat])))))"

subsection \<open>Observations on a call\<close>

text \<open>
  \<open>callbackBeforeEachStep T new\<close>: in the trace \<open>new\<close>, every run of the vector estimator
  for step \<open>s\<close> is immediately preceded by the progress callback invocation
  \<open>(s + 1, T)\<close>. \<open>throwsAbort f new err\<close>: when the callback \<open>f\<close> throws at an
  invocation recorded in \<open>new\<close>, the outcome \<open>err\<close> is that exception.
\<close>

fun stepsAnnounced :: "int \<Rightarrow> event option \<Rightarrow> event list \<Rightarrow> bool" where
  "stepsAnnounced T prev [] = True"
| "stepsAnnounced T prev (e # rest) =
     ((case e of
         VectorEstimatorRun s \<Rightarrow> prev = Some (ProgressCall (Suc s) T)
       | _ \<Rightarrow> True)
      \<and> stepsAnnounced T (Some e) rest)"

definition callbackBeforeEachStep :: "int \<Rightarrow> event list \<Rightarrow> bool" where
  "callbackBeforeEachStep T new = stepsAnnounced T None new"

definition errorOf :: "error + 'a \<Rightarrow> error option" where
  "errorOf r = (case r of Inl e \<Rightarrow> Some e | Inr _ \<Rightarrow> None)"

definition throwsAbort :: "callback \<Rightarrow> event list \<Rightarrow> error option \<Rightarrow> bool" where
  "throwsAbort f new err =
     (\<forall>s T thrown. ProgressCall s T \<in> set new \<longrightarrow> f s T = Some thrown
        \<longrightarrow> err = Some (CallbackError thrown))"

definition extends :: "callback \<Rightarrow> int \<Rightarrow> pstate \<Rightarrow> pstate \<Rightarrow> error option \<Rightarrow> bool" where
  "extends f T st st' err =
     (\<exists>new. st_trace st' = st_trace st @ new \<and> callbackBeforeEachStep T new
        \<and> throwsAbort f new err)"

text \<open>
  The results of \<open>_infer\<close> on each chunk in turn, as the loop of \<open>call\<close> obtains them,
  without the concatenation.
\<close>

fun inferChunks ::
  "(real \<Rightarrow> real) \<Rightarrow> TextToSpeech \<Rightarrow> jsstring \<Rightarrow> Style \<Rightarrow> int \<Rightarrow> real \<Rightarrow> callback option \<Rightarrow> jsstring list
     \<Rightarrow> pstate \<Rightarrow> pstate \<times> (error + (real list \<times> real list) list)" where
  "inferChunks rnd tts lang style totalStep speed progressCallback [] st = (st, Inr [])"
| "inferChunks rnd tts lang style totalStep speed progressCallback (chunk # rest) st =
     (case infer rnd tts [chunk] [lang] style totalStep speed progressCallback st of
        (st1, Inl e) \<Rightarrow> (st1, Inl e)
      | (st1, Inr chunkResult) \<Rightarrow>
          (case inferChunks rnd tts lang style totalStep speed progressCallback rest st1 of
             (st2, Inl e) \<Rightarrow> (st2, Inl e)
           | (st2, Inr results) \<Rightarrow> (st2, Inr (chunkResult # results))))"

text \<open>
  The latent length of a chunk with the given durations, and the tensor that holds its
  initial masked latent, for the single-item batches of \<open>call\<close>.
\<close>

definition latentFrames :: "(real \<Rightarrow> real) \<Rightarrow> TextToSpeech \<Rightarrow> real list \<Rightarrow> int" where
  "latentFrames rnd tts duration =
     latentLengthOf rnd (wavLengthOf rnd (cfg_sample_rate tts) (Max (set duration)))
       (cfg_base_chunk_size tts * cfg_chunk_compress_factor tts)"

definition initialLatentTensor ::
  "(real \<Rightarrow> real) \<Rightarrow> TextToSpeech \<Rightarrow> (nat \<Rightarrow> real) \<Rightarrow> real list \<Rightarrow> number tensor" where
  "initialLatentTensor rnd tts random duration =
     (concat (concat (map (map (map Num))
        (maskedLatent rnd random duration (cfg_sample_rate tts)
           (cfg_base_chunk_size tts * cfg_chunk_compress_factor tts)
           (cfg_latent_dim tts * cfg_chunk_compress_factor tts)
           (nat (latentFrames rnd tts duration))))),
      [1, cfg_latent_dim tts * cfg_chunk_compress_factor tts,
       nat (latentFrames rnd tts duration)])"




text \<open>
  A small engine for concrete runs: sample rate 10, chunk size 5, one latent channel; the
  duration predictor answers 0.0625 s for texts of at most 11 code units and 1 s otherwise,
  the vocoder returns one sample of 0.5 per latent frame. \<open>double_0_3\<close> is the double
  nearest to 0.3, the default \<open>silenceDuration\<close>.
\<close>

definition demoEngine :: TextToSpeech where
  "demoEngine =
     \<lparr>cfg_sample_rate = 10, cfg_base_chunk_size = 5, cfg_chunk_compress_factor = 1,
      cfg_latent_dim = 1, tp_indexer = [], tp_normalize = id,
      dpOrt = (\<lambda>ids sdp mask. Inr [if length (fst ids) \<le> 11 then 1 / 16 else 1]),
      textEncOrt = (\<lambda>ids ttl mask. Inr ([], [])),
      vectorEstOrt = (\<lambda>x emb ttl lm tm cur tot. Inr (replicate (length (fst x)) 0)),
      vocoderOrt = (\<lambda>latent. Inr (replicate (snd latent ! 2) (1 / 2)))\<rparr>"

definition demoStyle :: Style where
  "demoStyle = \<lparr>style_ttl = ([0], [1, 1]), style_dp = ([0], [1, 1])\<rparr>"

definition demoState :: pstate where
  "demoState = \<lparr>st_random = (\<lambda>i. 1 / 2), st_trace = []\<rparr>"

definition throwingCallback :: callback where
  "throwingCallback step totalStep = Some (str ''boom'')"

definition double_0_3 :: real where
  "double_0_3 = 5404319552844595 / 2 ^ 54"

subsection \<open>The WAV encoder\<close>

type_synonym byte = "8 word"

definition le16 :: "16 word \<Rightarrow> byte list" where
  "le16 w = [ucast w, ucast (drop_bit 8 w)]"

definition le32 :: "32 word \<Rightarrow> byte list" where
  "le32 w = [ucast w, ucast (drop_bit 8 w), ucast (drop_bit 16 w), ucast (drop_bit 24 w)]"

text \<open>\<open>writeString\<close>: one \<open>setUint8\<close> per \<open>charCodeAt\<close>.\<close>

definition writeString :: "string \<Rightarrow> byte list" where
  "writeString s = map (\<lambda>c. word_of_nat (of_char c)) s"

text \<open>
  \<open>Math.max(-1.0, Math.min(1.0, x))\<close>: the infinities are clamped like every other
  number, \<open>NaN\<close> stays \<open>NaN\<close>.
\<close>

definition clamped :: "number \<Rightarrow> number" where
  "clamped x =
     (case x of
        Num r \<Rightarrow> Num (max (- 1) (min 1 r))
      | PosInfinity \<Rightarrow> Num 1
      | NegInfinity \<Rightarrow> Num (- 1)
      | NaN \<Rightarrow> NaN)"

text \<open>
  \<open>Math.floor(clamped * 32767)\<close>, the product rounded to a double before the floor;
  \<open>None\<close> is \<open>NaN\<close>.
\<close>

definition quantize :: "(real \<Rightarrow> real) \<Rightarrow> number \<Rightarrow> int option" where
  "quantize rnd x =
     (case clamped x of
        Num c \<Rightarrow> Some \<lfloor>rnd (c * 32767)\<rfloor>
      | _ \<Rightarrow> None)"

text \<open>
  The loop of \<open>writeWavFile\<close>: \<open>int16Data[i] = Math.floor(clamped * 32767)\<close>. The store
  into the \<open>Int16Array\<close> keeps the low 16 bits of an integer and turns \<open>NaN\<close> into \<open>0\<close>.
\<close>

definition int16Data :: "(real \<Rightarrow> real) \<Rightarrow> number list \<Rightarrow> 16 word list" where
  "int16Data rnd audioData =
     map (\<lambda>x. case quantize rnd x of Some n \<Rightarrow> word_of_int n | None \<Rightarrow> 0) audioData"

text \<open>
  The whole buffer: the 44-byte header, then the bytes of the \<open>Int16Array\<close> in the byte
  order of the platform (little-endian, as the header fields are written).
\<close>

definition wavHeader :: "nat \<Rightarrow> nat \<Rightarrow> byte list" where
  "wavHeader n sampleRate =
     (let numChannels = 1 :: nat;
          bitsPerSample = 16 :: nat;
          byteRate = sampleRate * numChannels * bitsPerSample div 8;
          blockAlign = numChannels * bitsPerSample div 8;
          dataSize = n * 2
      in writeString ''RIFF'' @ le32 (word_of_nat (36 + dataSize))
         @ writeString ''WAVE'' @ writeString ''fmt ''
         @ le32 16 @ le16 1 @ le16 (word_of_nat numChannels)
         @ le32 (word_of_nat sampleRate) @ le32 (word_of_nat byteRate)
         @ le16 (word_of_nat blockAlign) @ le16 (word_of_nat bitsPerSample)
         @ writeString ''data'' @ le32 (word_of_nat dataSize))"

definition writeWavFile :: "(real \<Rightarrow> real) \<Rightarrow> number list \<Rightarrow> nat \<Rightarrow> byte list" where
  "writeWavFile rnd audioData sampleRate =
     wavHeader (length audioData) sampleRate @ concat (map le16 (int16Data rnd audioData))"

text \<open>Reading the file back: the \<open>i\<close>-th signed 16-bit sample of the data chunk.\<close>

definition rd16 :: "byte list \<Rightarrow> 16 word" where
  "rd16 bs = (ucast (bs ! 0) :: 16 word) OR push_bit 8 (ucast (bs ! 1))"

definition dataSample :: "byte list \<Rightarrow> nat \<Rightarrow> int" where
  "dataSample buffer i = sint (rd16 (drop (44 + 2 * i) buffer))"

text \<open>
  The specification's wording, for comparison: truncation toward zero
  (\<open>Math.trunc\<close>), which the source does not call.
\<close>

definition truncate_toward_zero :: "real \<Rightarrow> int" where
  "truncate_toward_zero x = (if 0 \<le> x then \<lfloor>x\<rfloor> else \<lceil>x\<rceil>)"

section \<open>Properties\<close>

subsection \<open>Rounding to a double\<close>

lemma roundHalfEven_of_int: "roundHalfEven (of_int n) = n"
  by (simp add: roundHalfEven_def)

lemma roundHalfEven_error: "\<bar>of_int (roundHalfEven y) - y\<bar> \<le> 1 / 2"
  unfolding roundHalfEven_def by (auto; linarith)

lemma roundHalfEven_mono: "a \<le> b \<Longrightarrow> roundHalfEven a \<le> roundHalfEven b"
proof -
  assume ab: "a \<le> b"
  then have fl: "\<lfloor>a\<rfloor> \<le> \<lfloor>b\<rfloor>" by (rule floor_mono)
  show ?thesis
  proof (cases "\<lfloor>a\<rfloor> = \<lfloor>b\<rfloor>")
    case True
    then show ?thesis
      using ab unfolding roundHalfEven_def by auto
  next
    case False
    with fl have "\<lfloor>a\<rfloor> + 1 \<le> \<lfloor>b\<rfloor>" by simp
    moreover have "roundHalfEven a \<le> \<lfloor>a\<rfloor> + 1" "\<lfloor>b\<rfloor> \<le> roundHalfEven b"
      unfolding roundHalfEven_def by auto
    ultimately show ?thesis by linarith
  qed
qed

lemma roundHalfEven_uminus: "roundHalfEven (- y) = - roundHalfEven y"
proof (cases "y \<in> \<int>")
  case True
  then obtain n where "y = of_int n" by (auto elim: Ints_cases)
  then show ?thesis
    using roundHalfEven_of_int [of "- n"] roundHalfEven_of_int [of n] by simp
next
  case False
  then have "y \<noteq> of_int \<lfloor>y\<rfloor>"
    by (metis Ints_of_int)
  then have c: "\<lceil>y\<rceil> = \<lfloor>y\<rfloor> + 1"
    by (simp add: ceiling_altdef)
  have f: "\<lfloor>- y\<rfloor> = - \<lfloor>y\<rfloor> - 1"
    using c by (simp add: ceiling_def)
  show ?thesis
    unfolding roundHalfEven_def f by (auto; linarith?)
qed


lemma ulp_pos: "0 < ulp x"
  by (simp add: ulp_def)

lemma powr_powi: "(2::real) powr of_int n = 2 powi n"
  by (simp add: powr_real_of_int')

lemma log_floor_bounds:
  assumes "x \<noteq> 0"
  shows "2 powi \<lfloor>log 2 \<bar>x\<bar>\<rfloor> \<le> \<bar>x\<bar>" and "\<bar>x\<bar> < 2 powi (\<lfloor>log 2 \<bar>x\<bar>\<rfloor> + 1)"
proof -
  have pos: "0 < \<bar>x\<bar>" using assms by simp
  have "2 powr of_int \<lfloor>log 2 \<bar>x\<bar>\<rfloor> \<le> \<bar>x\<bar>"
    using pos le_log_iff [of 2 "\<bar>x\<bar>" "of_int \<lfloor>log 2 \<bar>x\<bar>\<rfloor>"] by simp
  then show "2 powi \<lfloor>log 2 \<bar>x\<bar>\<rfloor> \<le> \<bar>x\<bar>"
    by (simp only: powr_powi)
  have "log 2 \<bar>x\<bar> < of_int (\<lfloor>log 2 \<bar>x\<bar>\<rfloor> + 1)" by linarith
  then have "\<bar>x\<bar> < 2 powr of_int (\<lfloor>log 2 \<bar>x\<bar>\<rfloor> + 1)"
    using pos log_less_iff [of 2 "\<bar>x\<bar>" "of_int (\<lfloor>log 2 \<bar>x\<bar>\<rfloor> + 1)"] by simp
  then show "\<bar>x\<bar> < 2 powi (\<lfloor>log 2 \<bar>x\<bar>\<rfloor> + 1)"
    by (simp only: powr_powi)
qed

lemma log_floor_unique:
  assumes "2 powi e \<le> \<bar>x\<bar>" and "\<bar>x\<bar> < 2 powi (e + 1)"
  shows "\<lfloor>log 2 \<bar>x\<bar>\<rfloor> = e"
proof (rule floor_unique)
  have pos: "0 < \<bar>x\<bar>"
    using assms(1) zero_less_power_int [of "2::real" e] by linarith
  have "2 powr of_int e \<le> \<bar>x\<bar>"
    using assms(1) by (simp only: powr_powi)
  then show "of_int e \<le> log 2 \<bar>x\<bar>"
    using pos le_log_iff [of 2 "\<bar>x\<bar>" "of_int e"] by simp
  have "\<bar>x\<bar> < 2 powr of_int (e + 1)"
    using assms(2) by (simp only: powr_powi)
  then have "log 2 \<bar>x\<bar> < of_int (e + 1)"
    using pos log_less_iff [of 2 "\<bar>x\<bar>" "of_int (e + 1)"] by simp
  then show "log 2 \<bar>x\<bar> < of_int e + 1" by simp
qed

lemma exponentOf_eq:
  assumes "2 powi e \<le> \<bar>x\<bar>" and "\<bar>x\<bar> < 2 powi (e + 1)" and "- 1022 \<le> e"
  shows "exponentOf x = e"
  using log_floor_unique [OF assms(1,2)] assms(3) by (simp add: exponentOf_def)

lemma exponentOf_normal:
  assumes "2 powi (- 1022) \<le> \<bar>x\<bar>"
  shows "exponentOf x = \<lfloor>log 2 \<bar>x\<bar>\<rfloor>" and "2 powi exponentOf x \<le> \<bar>x\<bar>"
proof -
  have x: "x \<noteq> 0"
    using assms zero_less_power_int [of "2::real" "- 1022"] by auto
  have "\<not> \<lfloor>log 2 \<bar>x\<bar>\<rfloor> + 1 \<le> - 1022"
  proof
    assume "\<lfloor>log 2 \<bar>x\<bar>\<rfloor> + 1 \<le> - 1022"
    then have "(2::real) powi (\<lfloor>log 2 \<bar>x\<bar>\<rfloor> + 1) \<le> 2 powi (- 1022)"
      by (intro power_int_increasing) simp_all
    with log_floor_bounds(2) [OF x] assms show False by linarith
  qed
  then show e: "exponentOf x = \<lfloor>log 2 \<bar>x\<bar>\<rfloor>"
    by (simp add: exponentOf_def)
  show "2 powi exponentOf x \<le> \<bar>x\<bar>"
    unfolding e by (rule log_floor_bounds(1) [OF x])
qed

lemma below_next_binade: "\<bar>x\<bar> < 2 powi (exponentOf x + 1)"
proof (cases "x = 0")
  case True
  then show ?thesis by simp
next
  case False
  have "\<lfloor>log 2 \<bar>x\<bar>\<rfloor> + 1 \<le> exponentOf x + 1"
    by (simp add: exponentOf_def)
  then have "(2::real) powi (\<lfloor>log 2 \<bar>x\<bar>\<rfloor> + 1) \<le> 2 powi (exponentOf x + 1)"
    by (intro power_int_increasing) simp_all
  with log_floor_bounds(2) [OF False] show ?thesis by linarith
qed

lemma exponentOf_uminus: "exponentOf (- x) = exponentOf x"
  by (simp add: exponentOf_def)

lemma roundDouble_uminus: "roundDouble (- x) = - roundDouble x"
  by (simp add: roundDouble_def ulp_def exponentOf_uminus roundHalfEven_uminus)

lemma roundDouble_0: "roundDouble 0 = 0"
  using roundHalfEven_of_int [of 0] by (simp add: roundDouble_def)

lemma roundDouble_nonneg: "0 \<le> x \<Longrightarrow> 0 \<le> roundDouble x"
proof -
  assume "0 \<le> x"
  then have "0 \<le> x / ulp x"
    using ulp_pos [of x] by simp
  then have "roundHalfEven 0 \<le> roundHalfEven (x / ulp x)"
    by (rule roundHalfEven_mono)
  then have "0 \<le> roundHalfEven (x / ulp x)"
    using roundHalfEven_of_int [of 0] by simp
  then show ?thesis
    using ulp_pos [of x] by (simp add: roundDouble_def)
qed

lemma roundDouble_upper:
  assumes "0 \<le> x"
  shows "roundDouble x \<le> 2 powi (exponentOf x + 1)"
proof -
  have "x < 2 powi (exponentOf x + 1)"
    using below_next_binade [of x] assms by simp
  also have "(2::real) powi (exponentOf x + 1) = 2 ^ 53 * ulp x"
    by (simp add: ulp_def power_int_diff power_int_add)
  finally have "x / ulp x \<le> of_int (2 ^ 53)"
    using ulp_pos [of x] by (simp add: pos_divide_le_eq)
  then have "roundHalfEven (x / ulp x) \<le> roundHalfEven (of_int (2 ^ 53))"
    by (rule roundHalfEven_mono)
  then have "roundHalfEven (x / ulp x) \<le> 2 ^ 53"
    by (simp only: roundHalfEven_of_int)
  then have "real_of_int (roundHalfEven (x / ulp x)) \<le> 2 ^ 53"
    by (metis of_int_le_iff of_int_numeral of_int_power)
  then have "roundDouble x \<le> 2 ^ 53 * ulp x"
    unfolding roundDouble_def using ulp_pos [of x] by (intro mult_right_mono) simp_all
  then show ?thesis
    by (simp add: ulp_def power_int_diff power_int_add)
qed

lemma roundDouble_lower:
  assumes "2 powi exponentOf x \<le> x"
  shows "2 powi exponentOf x \<le> roundDouble x"
proof -
  have eq: "(2::real) powi exponentOf x = 2 ^ 52 * ulp x"
    by (simp add: ulp_def power_int_diff)
  have "of_int (2 ^ 52) \<le> x / ulp x"
    using assms ulp_pos [of x] unfolding eq by (simp add: pos_le_divide_eq)
  then have "roundHalfEven (of_int (2 ^ 52)) \<le> roundHalfEven (x / ulp x)"
    by (rule roundHalfEven_mono)
  then have "2 ^ 52 \<le> roundHalfEven (x / ulp x)"
    by (simp only: roundHalfEven_of_int)
  then have "2 ^ 52 \<le> real_of_int (roundHalfEven (x / ulp x))"
    by (metis of_int_le_iff of_int_numeral of_int_power)
  then have "2 ^ 52 * ulp x \<le> roundDouble x"
    unfolding roundDouble_def using ulp_pos [of x] by (intro mult_right_mono) simp_all
  then show ?thesis
    by (simp only: eq)
qed


lemma exponentOf_mono:
  assumes "0 < x" and "x \<le> y"
  shows "exponentOf x \<le> exponentOf y"
proof -
  have "log 2 \<bar>x\<bar> \<le> log 2 \<bar>y\<bar>"
    using assms by simp
  then have "\<lfloor>log 2 \<bar>x\<bar>\<rfloor> \<le> \<lfloor>log 2 \<bar>y\<bar>\<rfloor>"
    by (rule floor_mono)
  then show ?thesis
    by (simp add: exponentOf_def)
qed

lemma roundDouble_mono_pos:
  assumes "0 < x" and "x \<le> y"
  shows "roundDouble x \<le> roundDouble y"
proof (cases "exponentOf x = exponentOf y")
  case True
  then have u: "ulp x = ulp y"
    by (simp add: ulp_def)
  have "x / ulp y \<le> y / ulp y"
    using assms(2) ulp_pos [of y] by (simp add: divide_right_mono)
  then have "roundHalfEven (x / ulp y) \<le> roundHalfEven (y / ulp y)"
    by (rule roundHalfEven_mono)
  then have "real_of_int (roundHalfEven (x / ulp y)) \<le> real_of_int (roundHalfEven (y / ulp y))"
    by simp
  then show ?thesis
    unfolding roundDouble_def u using ulp_pos [of y] by (intro mult_right_mono) simp_all
next
  case False
  with exponentOf_mono [OF assms] have lt: "exponentOf x < exponentOf y"
    by simp
  have y: "0 < y" using assms by simp
  have "- 1022 \<le> exponentOf x"
    by (simp add: exponentOf_def)
  with lt have "exponentOf y = \<lfloor>log 2 \<bar>y\<bar>\<rfloor>"
    by (simp add: exponentOf_def max_def split: if_splits)
  then have "2 powi exponentOf y \<le> \<bar>y\<bar>"
    using log_floor_bounds(1) [of y] y by simp
  then have "2 powi exponentOf y \<le> y"
    using y by simp
  then have lo: "2 powi exponentOf y \<le> roundDouble y"
    by (rule roundDouble_lower)
  have hi: "roundDouble x \<le> 2 powi (exponentOf x + 1)"
    using assms(1) by (intro roundDouble_upper) simp
  have "(2::real) powi (exponentOf x + 1) \<le> 2 powi exponentOf y"
    using lt by (intro power_int_increasing) simp_all
  with lo hi show ?thesis by linarith
qed

lemma roundDouble_mono:
  assumes "x \<le> y"
  shows "roundDouble x \<le> roundDouble y"
proof -
  consider "0 < x" | "x \<le> 0" "0 \<le> y" | "y < 0"
    using assms by linarith
  then show ?thesis
  proof cases
    case 1
    then show ?thesis using assms by (rule roundDouble_mono_pos)
  next
    case 2
    have "roundDouble x \<le> 0"
      using roundDouble_nonneg [of "- x"] 2(1) by (simp add: roundDouble_uminus)
    moreover have "0 \<le> roundDouble y"
      using 2(2) by (rule roundDouble_nonneg)
    ultimately show ?thesis by linarith
  next
    case 3
    then have "0 < - y" "- y \<le> - x"
      using assms by simp_all
    then have "roundDouble (- y) \<le> roundDouble (- x)"
      by (rule roundDouble_mono_pos)
    then show ?thesis
      by (simp add: roundDouble_uminus)
  qed
qed

lemma roundDouble_exact:
  assumes "x = of_int m * 2 powi k" and "\<bar>m\<bar> < 2 ^ 53" and "- 1074 \<le> k"
  shows "roundDouble x = x"
proof (cases "x = 0")
  case True
  then show ?thesis by (simp add: roundDouble_0)
next
  case False
  have le: "exponentOf x - 52 \<le> k"
  proof (cases "exponentOf x = - 1022")
    case True
    then show ?thesis using assms(3) by simp
  next
    case False
    then have e: "exponentOf x = \<lfloor>log 2 \<bar>x\<bar>\<rfloor>"
      by (simp add: exponentOf_def max_def split: if_splits)
    have "real_of_int \<bar>m\<bar> < 2 ^ 53"
      using assms(2) by (metis of_int_less_iff of_int_numeral of_int_power)
    then have "\<bar>x\<bar> < 2 ^ 53 * 2 powi k"
      unfolding assms(1) by (simp add: abs_mult)
    also have "\<dots> = 2 powi (53 + k)"
      by (simp add: power_int_add)
    finally have "2 powi exponentOf x < (2::real) powi (53 + k)"
      using log_floor_bounds(1) [OF \<open>x \<noteq> 0\<close>] unfolding e by linarith
    then have "\<not> 53 + k \<le> exponentOf x"
      using power_int_increasing [of "53 + k" "exponentOf x" "2::real"] by auto
    then show ?thesis by simp
  qed
  define j where "j = nat (k - (exponentOf x - 52))"
  have k: "k = (exponentOf x - 52) + int j"
    using le by (simp add: j_def)
  have "(2::real) powi k = ulp x * 2 ^ j"
    unfolding ulp_def by (subst k) (simp add: power_int_add)
  then have "of_int m * 2 powi k = of_int m * 2 ^ j * ulp x"
    by (simp only: mult.assoc mult.commute [of "ulp x"])
  then have "x = of_int m * 2 ^ j * ulp x"
    by (simp only: assms(1) [symmetric])
  then have "x / ulp x = of_int m * 2 ^ j"
    using ulp_pos [of x] by (simp add: field_simps)
  also have "\<dots> = of_int (m * 2 ^ j)"
    by simp
  finally have q: "x / ulp x = of_int (m * 2 ^ j)" .
  have "roundDouble x = of_int (m * 2 ^ j) * ulp x"
    unfolding roundDouble_def q roundHalfEven_of_int ..
  also have "\<dots> = x / ulp x * ulp x"
    by (simp only: q)
  also have "\<dots> = x"
    using ulp_pos [of x] by simp
  finally show ?thesis .
qed

lemma roundDouble_of_int:
  assumes "\<bar>n\<bar> \<le> 2 ^ 53"
  shows "roundDouble (of_int n) = of_int n"
proof (cases "\<bar>n\<bar> < 2 ^ 53")
  case True
  show ?thesis
    by (rule roundDouble_exact [of _ n 0]) (use True in simp_all)
next
  case False
  with assms have "\<bar>n\<bar> = 2 ^ 53" by simp
  then consider "n = 2 ^ 53" | "n = - (2 ^ 53)" by linarith
  then show ?thesis
  proof cases
    case 1
    show ?thesis
      by (rule roundDouble_exact [of _ 1 53]) (simp_all add: 1)
  next
    case 2
    show ?thesis
      by (rule roundDouble_exact [of _ "- 1" 53]) (simp_all add: 2)
  qed
qed

lemma roundDouble_error:
  assumes "2 powi (- 1022) \<le> \<bar>x\<bar>"
  shows "\<bar>roundDouble x - x\<bar> \<le> \<bar>x\<bar> / 2 ^ 53"
proof -
  have "roundDouble x - x = (of_int (roundHalfEven (x / ulp x)) - x / ulp x) * ulp x"
    using ulp_pos [of x] by (simp add: roundDouble_def algebra_simps)
  then have "\<bar>roundDouble x - x\<bar> = \<bar>of_int (roundHalfEven (x / ulp x)) - x / ulp x\<bar> * ulp x"
    using ulp_pos [of x] by (simp add: abs_mult)
  also have "\<dots> \<le> 1 / 2 * ulp x"
    using roundHalfEven_error [of "x / ulp x"] ulp_pos [of x] by (intro mult_right_mono) simp_all
  also have "\<dots> = 2 powi exponentOf x / 2 ^ 53"
    by (simp add: ulp_def power_int_diff)
  also have "\<dots> \<le> \<bar>x\<bar> / 2 ^ 53"
    using exponentOf_normal(2) [OF assms] by (simp add: divide_right_mono)
  finally show ?thesis .
qed

lemma doubleRounding_roundDouble: "doubleRounding roundDouble"
  unfolding doubleRounding_def
  using roundDouble_mono roundDouble_of_int roundDouble_error by blast

lemma roundDouble_eval:
  assumes "2 powi e \<le> \<bar>x\<bar>" and "\<bar>x\<bar> < 2 powi (e + 1)" and "- 1022 \<le> e"
  shows "roundDouble x = of_int (roundHalfEven (x / 2 powi (e - 52))) * 2 powi (e - 52)"
  by (simp add: roundDouble_def ulp_def exponentOf_eq [OF assms])

lemmas eval_defs = preprocessText_def cleanText_def str_def isValidLang_def AVAILABLE_LANGS_def wrapLang_def
     applyReplacements_def replacements_def exprReplacements_def removeSymbols_def fixSpacing_def trim_def isWhitespace_def
     endsWithTerminal_def ensureTerminal_def terminalChars_def isHighSurrogate_def isLowSurrogate_def emojiPattern_def



subsection \<open>Characters that survive a stage\<close>

lemma set_replaceAll: "set (replaceAll k v t) \<subseteq> set t \<union> set v"
proof (induction k v t rule: replaceAll.induct)
  case (1 k v)
  then show ?case by auto
next
  case (2 k v c cs)
  have "set (drop (length k) (c # cs)) \<subseteq> set (c # cs)"
    by (rule set_drop_subset)
  with 2 show ?case by (auto simp del: drop.simps)
qed

lemma replaceAll_single_gone: "c \<notin> set v \<Longrightarrow> c \<notin> set (replaceAll [c] v t)"
  by (induction t) auto

lemma replaceAll_absent: "c \<notin> set t \<Longrightarrow> c \<notin> set v \<Longrightarrow> c \<notin> set (replaceAll k v t)"
  using set_replaceAll [of k v t] by blast

lemma set_replaceFirst: "set (replaceFirst k v t) \<subseteq> set t \<union> set v"
proof (induction t)
  case Nil
  then show ?case by auto
next
  case (Cons c cs)
  have "set (drop (length k) (c # cs)) \<subseteq> set (c # cs)"
    by (rule set_drop_subset)
  with Cons show ?case by (auto simp del: drop.simps)
qed

lemma set_removeDuplicate: "set (removeDuplicate q t) \<subseteq> set t"
proof (induction q t rule: removeDuplicate.induct)
  case (1 q s)
  show ?case
  proof (cases "includesStr [q, q] s")
    case True
    then have q: "q \<in> set s"
      by (induction s) (auto simp: prefix_def)
    from True have "removeDuplicate q s = removeDuplicate q (replaceFirst [q, q] [q] s)"
      by (subst removeDuplicate.simps) simp
    moreover have "set (removeDuplicate q (replaceFirst [q, q] [q] s))
        \<subseteq> set (replaceFirst [q, q] [q] s)"
      using 1 True by simp
    moreover have "set (replaceFirst [q, q] [q] s) \<subseteq> set s"
      using set_replaceFirst [of "[q, q]" "[q]" s] q by auto
    ultimately show ?thesis by simp
  next
    case False
    then show ?thesis by (subst removeDuplicate.simps) simp
  qed
qed

lemma set_collapseWhitespace: "set (collapseWhitespace t) \<subseteq> insert 0x20 (set t)"
proof (induction t rule: collapseWhitespace.induct)
  case 1
  then show ?case by simp
next
  case (2 c cs)
  have "set (dropWhile isWhitespace cs) \<subseteq> set cs"
    by (rule set_dropWhileD [THEN subsetI])
  with 2 show ?case by auto
qed

lemma set_trim: "set (trim t) \<subseteq> set t"
proof -
  have "set (dropWhile isWhitespace (rev (dropWhile isWhitespace t)))
      \<subseteq> set (rev (dropWhile isWhitespace t))"
    by (rule set_dropWhileD [THEN subsetI])
  moreover have "set (dropWhile isWhitespace t) \<subseteq> set t"
    by (rule set_dropWhileD [THEN subsetI])
  ultimately show ?thesis by (auto simp: trim_def)
qed

lemma set_ensureTerminal: "set (ensureTerminal t) \<subseteq> insert 0x2E (set t)"
  by (auto simp: ensureTerminal_def str_def)

lemma ensureTerminal_ends:
  "ensureTerminal t \<noteq> [] \<and> last (ensureTerminal t) \<in> set terminalChars"
  by (simp add: ensureTerminal_def endsWithTerminal_def str_def terminalChars_def)

lemma slash_gone_replacements: "0x2F \<notin> set (applyReplacements replacements t)"
  unfolding applyReplacements_def replacements_def
  by (simp add: str_def replaceAll_absent replaceAll_single_gone)

lemma slash_absent_removeSymbols: "0x2F \<notin> set t \<Longrightarrow> 0x2F \<notin> set (removeSymbols t)"
  by (simp add: removeSymbols_def)



lemma absent_applyReplacements:
  "c \<notin> set t \<Longrightarrow> \<forall>(k, v) \<in> set table. c \<notin> set v
     \<Longrightarrow> c \<notin> set (applyReplacements table t)"
  unfolding applyReplacements_def
  by (induction table arbitrary: t) (auto simp: replaceAll_absent)

lemma slash_absent_exprReplacements:
  "0x2F \<notin> set t \<Longrightarrow> 0x2F \<notin> set (applyReplacements exprReplacements t)"
  by (rule absent_applyReplacements) (simp_all add: exprReplacements_def str_def)

lemma slash_absent_fixSpacing: "0x2F \<notin> set t \<Longrightarrow> 0x2F \<notin> set (fixSpacing t)"
  unfolding fixSpacing_def
  by (rule absent_applyReplacements) (simp_all add: str_def)


lemma absent_removeDuplicate: "c \<notin> set t \<Longrightarrow> c \<notin> set (removeDuplicate q t)"
  using set_removeDuplicate [of q t] by blast

lemma absent_collapseWhitespace:
  "c \<notin> set t \<Longrightarrow> c \<noteq> 0x20 \<Longrightarrow> c \<notin> set (collapseWhitespace t)"
  using set_collapseWhitespace [of t] by blast

lemma absent_trim: "c \<notin> set t \<Longrightarrow> c \<notin> set (trim t)"
  using set_trim [of t] by blast

lemma absent_ensureTerminal:
  "c \<notin> set t \<Longrightarrow> c \<noteq> 0x2E \<Longrightarrow> c \<notin> set (ensureTerminal t)"
  using set_ensureTerminal [of t] by blast

lemma slash_absent_cleanText: "0x2F \<notin> set (cleanText nfkd s)"
  unfolding cleanText_def
  by (intro absent_ensureTerminal absent_trim absent_collapseWhitespace
      absent_removeDuplicate slash_absent_fixSpacing slash_absent_exprReplacements
      slash_absent_removeSymbols slash_gone_replacements) simp_all

lemma cleanText_ends:
  "cleanText nfkd s \<noteq> [] \<and> last (cleanText nfkd s) \<in> set terminalChars"
  unfolding cleanText_def by (rule ensureTerminal_ends)

subsection \<open>Occurrences of the closing tag\<close>

lemma occurrences_short: "length t < length k \<Longrightarrow> occurrences k t = 0"
proof (induction t)
  case Nil
  then show ?case by auto
next
  case (Cons c cs)
  then have "\<not> prefix k (c # cs)"
    by (auto dest: prefix_length_le)
  with Cons show ?case by simp
qed

lemma occurrences_closing_once:
  "0x2F \<notin> set pre \<Longrightarrow>
   occurrences (0x3C # 0x2F # rest) (pre @ 0x3C # 0x2F # rest) = 1"
proof (induction pre)
  case Nil
  have "occurrences (0x3C # 0x2F # rest) (0x2F # rest) = 0"
    by (rule occurrences_short) simp
  then show ?case by simp
next
  case (Cons p ps)
  have "\<not> prefix (0x3C # 0x2F # rest) (p # ps @ 0x3C # 0x2F # rest)"
  proof (cases ps)
    case Nil
    then show ?thesis by simp
  next
    case (Cons q qs)
    with Cons.prems show ?thesis by auto
  qed
  with Cons show ?case by simp
qed


subsection \<open>Counting a character through the stages\<close>

lemma count_removeEmoji:
  "\<not> emojiPattern c \<Longrightarrow> \<not> isHighSurrogate c \<Longrightarrow> \<not> isLowSurrogate c
     \<Longrightarrow> count_list (removeEmoji t) c = count_list t c"
proof (induction t rule: removeEmoji.induct)
  case (1 h l cs)
  then show ?case by (cases "emojiPattern h") auto
next
  case (2 d)
  then show ?case by auto
next
  case 3
  then show ?case by simp
qed

lemma count_replaceAll:
  "k \<noteq> [] \<Longrightarrow> c \<notin> set k \<Longrightarrow> c \<notin> set v
     \<Longrightarrow> count_list (replaceAll k v t) c = count_list t c"
proof (induction k v t rule: replaceAll.induct)
  case (1 k v)
  then show ?case by simp
next
  case (2 k v d ds)
  show ?case
  proof (cases "prefix k (d # ds)")
    case True
    then obtain r where r: "d # ds = k @ r"
      by (auto simp: prefix_def)
    then have dr: "drop (length k) (d # ds) = r"
      by simp
    have "count_list (replaceAll k v (d # ds)) c = count_list (replaceAll k v r) c"
      using True 2 dr by (simp add: count_list_0_iff del: drop.simps)
    also have "\<dots> = count_list r c"
      using 2 True dr by (simp del: drop.simps)
    also have "\<dots> = count_list (d # ds) c"
      using "2.prems" by (simp only: r count_list_append) (simp add: count_list_0_iff)
    finally show ?thesis .
  next
    case False
    with 2 show ?thesis by simp
  qed
qed

lemma count_applyReplacements:
  "\<forall>(k, v) \<in> set table. k \<noteq> [] \<and> c \<notin> set k \<and> c \<notin> set v
     \<Longrightarrow> count_list (applyReplacements table t) c = count_list t c"
  unfolding applyReplacements_def
  by (induction table arbitrary: t) (auto simp: count_replaceAll)

lemma count_dropWhile: "\<not> P c \<Longrightarrow> count_list (dropWhile P t) c = count_list t c"
  by (induction t) auto

lemma count_collapseWhitespace:
  "\<not> isWhitespace c \<Longrightarrow> count_list (collapseWhitespace t) c = count_list t c"
proof (induction t rule: collapseWhitespace.induct)
  case 1
  then show ?case by simp
next
  case (2 d ds)
  have sp: "isWhitespace 0x20"
    by (simp add: isWhitespace_def)
  show ?case
  proof (cases "isWhitespace d")
    case True
    with 2 sp have "c \<noteq> 0x20" "c \<noteq> d" by auto
    with 2 True show ?thesis by (simp add: count_dropWhile)
  next
    case False
    with 2 show ?thesis by simp
  qed
qed

lemma count_trim: "\<not> isWhitespace c \<Longrightarrow> count_list (trim t) c = count_list t c"
  by (simp add: trim_def count_dropWhile)

lemma count_replaceFirst_double:
  "c \<noteq> q \<Longrightarrow> count_list (replaceFirst [q, q] [q] t) c = count_list t c"
  by (induction t) (auto simp: prefix_def)

lemma count_removeDuplicate:
  "c \<noteq> q \<Longrightarrow> count_list (removeDuplicate q t) c = count_list t c"
proof (induction q t rule: removeDuplicate.induct)
  case (1 q s)
  show ?case
  proof (cases "includesStr [q, q] s")
    case True
    then have "removeDuplicate q s = removeDuplicate q (replaceFirst [q, q] [q] s)"
      by (subst removeDuplicate.simps) simp
    also have "count_list \<dots> c = count_list (replaceFirst [q, q] [q] s) c"
      using 1 True by simp
    finally show ?thesis
      using 1 by (simp add: count_replaceFirst_double)
  next
    case False
    then show ?thesis by (subst removeDuplicate.simps) simp
  qed
qed

lemma count_ensureTerminal:
  "c \<noteq> 0x2E \<Longrightarrow> count_list (ensureTerminal t) c = count_list t c"
  by (simp add: ensureTerminal_def str_def)


lemma count_filter: "P c \<Longrightarrow> count_list (filter P t) c = count_list t c"
  by (induction t) auto

lemma count_lt_removeSymbols: "count_list (removeSymbols t) 0x3C = count_list t 0x3C"
  unfolding removeSymbols_def by (rule count_filter) simp

lemma count_lt_cleanText: "count_list (cleanText nfkd s) 0x3C = count_list (nfkd s) 0x3C"
proof -
  have "count_list (cleanText nfkd s) 0x3C
      = count_list (applyReplacements replacements (removeEmoji (nfkd s))) 0x3C"
    unfolding cleanText_def
    by (simp add: count_ensureTerminal count_trim count_collapseWhitespace
        count_removeDuplicate fixSpacing_def count_applyReplacements exprReplacements_def
        count_lt_removeSymbols str_def isWhitespace_def)
  also have "\<dots> = count_list (removeEmoji (nfkd s)) 0x3C"
    by (rule count_applyReplacements) (simp add: replacements_def str_def)
  also have "\<dots> = count_list (nfkd s) 0x3C"
    by (rule count_removeEmoji)
      (simp_all add: emojiPattern_def isHighSurrogate_def isLowSurrogate_def)
  finally show ?thesis .
qed


lemma count_lt_lang: "isValidLang lang \<Longrightarrow> count_list lang 0x3C = 0"
  by (auto simp: isValidLang_def AVAILABLE_LANGS_def str_def)

lemma slash_absent_lang: "isValidLang lang \<Longrightarrow> 0x2F \<notin> set lang"
  by (auto simp: isValidLang_def AVAILABLE_LANGS_def str_def)

lemma count_lt_wrapLang:
  "isValidLang lang \<Longrightarrow> count_list (wrapLang lang t) 0x3C = count_list t 0x3C + 2"
  by (simp add: wrapLang_def str_def count_lt_lang)

text \<open>
  C5 (as the code has it). For a supported language, \<open>preprocessText\<close> returns the open
  tag, a body and the close tag, in this order. The body is not empty and ends in one of
  the terminal characters; it contains no \<open>/\<close>, so the close tag occurs exactly once in the
  result, at its end. The open tag stands at the start; nothing keeps the body from
  containing it again.
\<close>

theorem C5_normalize_wrapped:
  assumes "isValidLang lang"
  shows "\<exists>body. preprocessText nfkd t lang
            = Inr (str ''<'' @ lang @ str ''>'' @ body @ str ''</'' @ lang @ str ''>'')
          \<and> body \<noteq> [] \<and> last body \<in> set terminalChars
          \<and> occurrences (str ''</'' @ lang @ str ''>'')
               (str ''<'' @ lang @ str ''>'' @ body @ str ''</'' @ lang @ str ''>'') = 1"
proof -
  let ?body = "cleanText nfkd t"
  have out: "preprocessText nfkd t lang
      = Inr (str ''<'' @ lang @ str ''>'' @ ?body @ str ''</'' @ lang @ str ''>'')"
    using assms by (simp add: preprocessText_def wrapLang_def)
  have "0x2F \<notin> set (0x3C # lang @ 0x3E # ?body)"
    using slash_absent_lang [OF assms] slash_absent_cleanText [of nfkd t] by simp
  from occurrences_closing_once [OF this, of "lang @ [0x3E]"]
  have "occurrences (str ''</'' @ lang @ str ''>'')
          (str ''<'' @ lang @ str ''>'' @ ?body @ str ''</'' @ lang @ str ''>'') = 1"
    by (simp add: str_def)
  with out cleanText_ends [of nfkd t] show ?thesis by blast
qed

text \<open>C5 at the text \<open>Hi\<close> in English.\<close>

theorem C5_normalize_wrapped_witness:
  "isValidLang (str ''en'')
   \<and> (\<exists>body. preprocessText id (str ''Hi'') (str ''en'')
            = Inr (str ''<'' @ str ''en'' @ str ''>'' @ body @ str ''</'' @ str ''en'' @ str ''>'')
          \<and> body \<noteq> [] \<and> last body \<in> set terminalChars
          \<and> occurrences (str ''</'' @ str ''en'' @ str ''>'')
               (str ''<'' @ str ''en'' @ str ''>'' @ body @ str ''</'' @ str ''en'' @ str ''>'') = 1)"
proof -
  have h: "isValidLang (str ''en'')"
    by (simp add: isValidLang_def AVAILABLE_LANGS_def)
  from C5_normalize_wrapped [OF h, of id "str ''Hi''"] h show ?thesis by blast
qed

text \<open>
  C5 (as stated) fails at the text \<open><en>\<close> in English: neither \<open><\<close> nor \<open>>\<close> is touched by
  the clean-up, so the result \<open><en><en>.</en>\<close> holds the open tag twice. (On ASCII text
  \<open>String.normalize\<close> is the identity.)
\<close>

theorem C5_open_tag_twice_counterexample:
  "preprocessText id (str ''<en>'') (str ''en'') = Inr (str ''<en><en>.</en>'')
   \<and> occurrences (str ''<en>'') (str ''<en><en>.</en>'') = 2"
  by (simp add: eval_defs removeDuplicate.simps)

text \<open>
  C1 (as the code has it). Normalisation is not idempotent: applied to its own output it
  wraps that output again. None of the clean-up stages adds or deletes a \<open><\<close>, the tags
  add two, and NFKD never deletes one (the hypothesis on the parameter \<open>nfkd\<close>, which
  \<open>String.normalize\<close> satisfies: \<open><\<close> decomposes to itself). So the second result has
  at least two more \<open><\<close> than the first and differs from it.
\<close>

theorem C1_normalize_rewraps:
  assumes "isValidLang lang"
    and "\<forall>s. count_list s 0x3C \<le> count_list (nfkd s) 0x3C"
  shows "\<exists>out out2. preprocessText nfkd t lang = Inr out
          \<and> preprocessText nfkd out lang = Inr out2
          \<and> count_list out 0x3C + 2 \<le> count_list out2 0x3C
          \<and> out2 \<noteq> out"
proof -
  let ?out = "wrapLang lang (cleanText nfkd t)"
  let ?out2 = "wrapLang lang (cleanText nfkd ?out)"
  have "count_list ?out2 0x3C = count_list (nfkd ?out) 0x3C + 2"
    using assms(1) by (simp add: count_lt_wrapLang count_lt_cleanText)
  moreover have "count_list ?out 0x3C \<le> count_list (nfkd ?out) 0x3C"
    using assms(2) by blast
  ultimately have le: "count_list ?out 0x3C + 2 \<le> count_list ?out2 0x3C"
    by simp
  then have "?out2 \<noteq> ?out"
    by auto
  with le assms(1) show ?thesis
    by (simp add: preprocessText_def)
qed

text \<open>C1 (as the code has it) at the text \<open>Hi\<close> in English.\<close>

theorem C1_normalize_rewraps_witness:
  "isValidLang (str ''en'') \<and> (\<forall>s. count_list s 0x3C \<le> count_list (id s) 0x3C)
   \<and> (\<exists>out out2. preprocessText id (str ''Hi'') (str ''en'') = Inr out
          \<and> preprocessText id out (str ''en'') = Inr out2
          \<and> count_list out 0x3C + 2 \<le> count_list out2 0x3C
          \<and> out2 \<noteq> out)"
proof -
  have h: "isValidLang (str ''en'')"
    by (simp add: isValidLang_def AVAILABLE_LANGS_def)
  have n: "\<forall>s. count_list s 0x3C \<le> count_list (id s) 0x3C"
    by simp
  from C1_normalize_rewraps [OF h n, of "str ''Hi''"] h n show ?thesis by blast
qed

text \<open>
  C1 (as stated) fails at the text \<open>Hi\<close> in English: the first application gives
  \<open><en>Hi.</en>\<close>; the second replaces the \<open>/\<close> by a space, appends a period after the
  final \<open>>\<close> and wraps again.
\<close>

theorem C1_idempotence_counterexample:
  "preprocessText id (str ''Hi'') (str ''en'') = Inr (str ''<en>Hi.</en>'')
   \<and> preprocessText id (str ''<en>Hi.</en>'') (str ''en'')
       = Inr (str ''<en><en>Hi.< en>.</en>'')
   \<and> str ''<en><en>Hi.< en>.</en>'' \<noteq> str ''<en>Hi.</en>''"
  by (simp add: eval_defs removeDuplicate.simps)

subsection \<open>Tokenisation and masks\<close>



lemma fold_max_ge: "x \<le> fold max ys (x::'a::linorder)"
  by (induction ys arbitrary: x) (auto intro: order_trans [OF max.cobounded2])

lemma fold_max_upper: "y \<in> set ys \<Longrightarrow> y \<le> fold max ys (x::'a::linorder)"
proof (induction ys arbitrary: x)
  case Nil
  then show ?case by simp
next
  case (Cons z zs)
  then show ?case
    using fold_max_ge [of "max z x" zs] by (auto simp: max.coboundedI1)
qed

lemma Math_max_upper: "Math_max xs = Some m \<Longrightarrow> x \<in> set xs \<Longrightarrow> x \<le> m"
  by (auto simp: Math_max_def fold_max_ge fold_max_upper split: list.splits)

lemma fold_max_mem: "fold max ys (x::'a::linorder) \<in> insert x (set ys)"
  by (induction ys arbitrary: x) (auto simp: max_def)

lemma Math_max_mem: "Math_max xs = Some m \<Longrightarrow> m \<in> set xs"
  using fold_max_mem by (fastforce simp: Math_max_def split: list.splits)

lemma fold_update_upto:
  "n \<le> length row \<Longrightarrow>
   fold (\<lambda>j r. r[j := f j]) [0..<n] row = map f [0..<n] @ drop n row"
proof (induction n)
  case 0
  then show ?case by simp
next
  case (Suc n)
  then have "fold (\<lambda>j r. r[j := f j]) [0..<Suc n] row
      = (map f [0..<n] @ drop n row)[n := f n]"
    by simp
  also have "\<dots> = map f [0..<n] @ (drop n row)[0 := f n]"
    by (simp add: list_update_append)
  also have "(drop n row)[0 := f n] = f n # drop (Suc n) row"
    using Suc.prems by (cases "drop n row") (auto simp: drop_Suc dest: arg_cong [where f = tl] simp: tl_drop)
  finally show ?case by simp
qed

lemma idRow_eq:
  "length s \<le> maxLen \<Longrightarrow>
   idRow indexer maxLen s
     = map (tokenId indexer s) [0..<length s] @ replicate (maxLen - length s) 0"
  by (simp add: idRow_def fold_update_upto)

lemma maskRow_eq:
  "maskRow len m = replicate (nat (min len (int m))) 1 @ replicate (m - nat (min len (int m))) 0"
proof -
  have "nat (min len (int m)) \<le> m" by auto
  then show ?thesis
    by (simp add: maskRow_def fold_update_upto map_replicate_const)
qed


lemma Math_max_Some: "xs \<noteq> [] \<Longrightarrow> \<exists>m. Math_max xs = Some m"
  by (cases xs) (simp_all add: Math_max_def)

lemma Math_max_unique:
  "Math_max xs = Some m \<Longrightarrow> m' \<in> set xs \<Longrightarrow> \<forall>x \<in> set xs. x \<le> m' \<Longrightarrow> m = m'"
  using Math_max_mem [of xs m] Math_max_upper [of xs m m'] by (auto intro: antisym)

lemma Math_max_map_int: "Math_max xs = Some m \<Longrightarrow> Math_max (map int xs) = Some (int m)"
proof -
  assume m: "Math_max xs = Some m"
  then have "xs \<noteq> []"
    by (auto simp: Math_max_def)
  then obtain k where k: "Math_max (map int xs) = Some k"
    using Math_max_Some [of "map int xs"] by auto
  have "int m \<in> set (map int xs)"
    using Math_max_mem [OF m] by simp
  moreover have "\<forall>x \<in> set (map int xs). x \<le> int m"
    using Math_max_upper [OF m] by auto
  ultimately show ?thesis
    using Math_max_unique [OF k] k by blast
qed

lemma lengthToMask_nonneg:
  assumes "Math_max lengths = Some m" and "0 \<le> m"
  shows "lengthToMask lengths (Some m) = Inr (map (\<lambda>len. [maskRow len (nat m)]) lengths)"
proof -
  from assms(1) obtain l ls where l: "lengths = l # ls" and m: "m = fold max ls l"
    by (auto simp: Math_max_def split: list.splits)
  show ?thesis
    using assms(2) by (simp add: lengthToMask_def l m Let_def)
qed

lemma getTextMask_lengths:
  assumes "Math_max xs = Some m"
  shows "getTextMask (map int xs) = Inr (map (\<lambda>len. [maskRow (int len) m]) xs)"
  using lengthToMask_nonneg [OF Math_max_map_int [OF assms]]
  by (simp add: getTextMask_def Math_max_map_int [OF assms] comp_def)

lemma maskRow_within:
  assumes "len \<le> m"
  shows "maskRow (int len) m = replicate len 1 @ replicate (m - len) 0"
  using assms by (simp add: maskRow_eq min_def)

lemma tokenize_result:
  assumes "Math_max (map length ps) = Some m"
  shows "tokenize indexer ps
     = Inr (map (\<lambda>s. map (tokenId indexer s) [0..<length s] @ replicate (m - length s) 0) ps,
            map (\<lambda>s. [replicate (length s) 1 @ replicate (m - length s) 0]) ps)"
proof -
  have le: "\<And>s. s \<in> set ps \<Longrightarrow> length s \<le> m"
    using Math_max_upper [OF assms] by auto
  have "map (idRow indexer m) ps
      = map (\<lambda>s. map (tokenId indexer s) [0..<length s] @ replicate (m - length s) 0) ps"
    using le by (simp add: idRow_eq)
  moreover have "map (\<lambda>len. [maskRow (int len) m]) (map length ps)
      = map (\<lambda>s. [replicate (length s) 1 @ replicate (m - length s) 0]) ps"
    using le by (simp add: maskRow_within)
  ultimately show ?thesis
    using assms getTextMask_lengths [OF assms]
    by (simp add: tokenize_def Let_def)
qed

lemma processTexts_length:
  "processTexts nfkd textList langList i = Inr ps \<Longrightarrow> length ps = length textList"
  by (induction textList arbitrary: i ps) (auto split: sum.splits)

lemma codePointAt_Some: "j < length s \<Longrightarrow> \<exists>cp. codePointAt s j = Some cp"
  by (simp add: codePointAt_def)

text \<open>
  C8. For a non-empty batch, \<open>UnicodeProcessor.call\<close> returns one id row and one mask
  entry per processed text. Every id row has the batch-wide maximum length \<open>maxLen\<close>; at
  an index \<open>j\<close> inside the text it holds the table entry of the code point that
  \<open>codePointAt(j)\<close> returns, or \<open>-1\<close> when that code point is beyond the table; from the
  text's length on it holds the padding \<open>0\<close>. The mask has shape \<open>(batch, 1, maxLen)\<close>: entry
  \<open>i\<close> is a single row of length \<open>maxLen\<close> with \<open>1.0\<close> at column \<open>j\<close> exactly when \<open>j\<close> is
  below the length of text \<open>i\<close>, so the row sums to that length. Lengths and indices count
  UTF-16 code units, as \<open>String.length\<close> does; an astral code point fills two columns
  (the code point's id, then the id of its trailing surrogate).
\<close>

theorem C8_tokenize:
  assumes "textList \<noteq> []"
    and "processTexts nfkd textList langList 0 = Inr processedTexts"
  shows "\<exists>textIds textMask maxLen.
      UnicodeProcessor_call nfkd indexer textList langList = Inr (textIds, textMask)
    \<and> Math_max (map length processedTexts) = Some maxLen
    \<and> length textIds = length processedTexts
    \<and> length textMask = length processedTexts
    \<and> (\<forall>i < length processedTexts.
          length (textIds ! i) = maxLen
        \<and> (\<forall>j < length (processedTexts ! i).
              \<exists>codePoint. codePointAt (processedTexts ! i) j = Some codePoint
                \<and> textIds ! i ! j
                    = (if codePoint < length indexer then indexer ! codePoint else - 1))
        \<and> (\<forall>j < maxLen. length (processedTexts ! i) \<le> j \<longrightarrow> textIds ! i ! j = 0)
        \<and> (\<exists>row. textMask ! i = [row] \<and> length row = maxLen
              \<and> (\<forall>j < maxLen. row ! j = (if j < length (processedTexts ! i) then 1 else 0))
              \<and> sum_list row = real (length (processedTexts ! i))))"
proof -
  let ?ps = processedTexts
  have "?ps \<noteq> []"
    using assms processTexts_length [OF assms(2)] by auto
  then obtain m where m: "Math_max (map length ?ps) = Some m"
    using Math_max_Some [of "map length ?ps"] by auto
  have le: "\<And>i. i < length ?ps \<Longrightarrow> length (?ps ! i) \<le> m"
    using Math_max_upper [OF m] by auto
  let ?ids = "map (\<lambda>s. map (tokenId indexer s) [0..<length s] @ replicate (m - length s) 0) ?ps"
  let ?mask = "map (\<lambda>s. [replicate (length s) (1::real) @ replicate (m - length s) 0]) ?ps"
  have call: "UnicodeProcessor_call nfkd indexer textList langList = Inr (?ids, ?mask)"
    using assms(2) tokenize_result [OF m] by (simp add: UnicodeProcessor_call_def)
  have rows: "\<forall>i < length ?ps.
          length (?ids ! i) = m
        \<and> (\<forall>j < length (?ps ! i).
              \<exists>codePoint. codePointAt (?ps ! i) j = Some codePoint
                \<and> ?ids ! i ! j
                    = (if codePoint < length indexer then indexer ! codePoint else - 1))
        \<and> (\<forall>j < m. length (?ps ! i) \<le> j \<longrightarrow> ?ids ! i ! j = 0)
        \<and> (\<exists>row. ?mask ! i = [row] \<and> length row = m
              \<and> (\<forall>j < m. row ! j = (if j < length (?ps ! i) then 1 else 0))
              \<and> sum_list row = real (length (?ps ! i)))"
  proof (intro allI impI)
    fix i assume i: "i < length ?ps"
    let ?s = "?ps ! i"
    have len: "length ?s \<le> m" using le [OF i] .
    have a: "length (?ids ! i) = m"
      using i len by simp
    have b: "\<forall>j < length ?s.
              \<exists>codePoint. codePointAt ?s j = Some codePoint
                \<and> ?ids ! i ! j
                    = (if codePoint < length indexer then indexer ! codePoint else - 1)"
    proof (intro allI impI)
      fix j assume j: "j < length ?s"
      then obtain cp where cp: "codePointAt ?s j = Some cp"
        using codePointAt_Some by blast
      have "?ids ! i ! j = tokenId indexer ?s j"
        using i j by (simp add: nth_append)
      with cp show "\<exists>codePoint. codePointAt ?s j = Some codePoint
                \<and> ?ids ! i ! j
                    = (if codePoint < length indexer then indexer ! codePoint else - 1)"
        by (simp add: tokenId_def)
    qed
    have c: "\<forall>j < m. length ?s \<le> j \<longrightarrow> ?ids ! i ! j = 0"
      using i by (auto simp: nth_append)
    let ?row = "replicate (length ?s) (1::real) @ replicate (m - length ?s) 0"
    have d: "?mask ! i = [?row] \<and> length ?row = m
              \<and> (\<forall>j < m. ?row ! j = (if j < length ?s then 1 else 0))
              \<and> sum_list ?row = real (length ?s)"
      using i len by (auto simp: nth_append sum_list_replicate)
    from a b c d show "length (?ids ! i) = m
        \<and> (\<forall>j < length ?s.
              \<exists>codePoint. codePointAt ?s j = Some codePoint
                \<and> ?ids ! i ! j
                    = (if codePoint < length indexer then indexer ! codePoint else - 1))
        \<and> (\<forall>j < m. length ?s \<le> j \<longrightarrow> ?ids ! i ! j = 0)
        \<and> (\<exists>row. ?mask ! i = [row] \<and> length row = m
              \<and> (\<forall>j < m. row ! j = (if j < length ?s then 1 else 0))
              \<and> sum_list row = real (length ?s))"
      by blast
  qed
  from call m rows show ?thesis
    by (intro exI [of _ ?ids] exI [of _ ?mask] exI [of _ m]) simp
qed

text \<open>
  C8 at a batch of two texts of normalised lengths 12 and 15, with a three-entry table.
\<close>

theorem C8_tokenize_witness:
  "\<exists>textIds textMask.
      UnicodeProcessor_call id [7, 8, 9] [str ''Hi'', str ''Hello''] [str ''en'', str ''en'']
        = Inr (textIds, textMask)
    \<and> length (textIds ! 0) = 15 \<and> length (textIds ! 1) = 15
    \<and> textIds ! 0 ! 0 = - 1 \<and> textIds ! 0 ! 12 = 0
    \<and> (\<exists>row. textMask ! 0 = [row] \<and> length row = 15 \<and> sum_list row = 12)
    \<and> (\<exists>row. textMask ! 1 = [row] \<and> length row = 15 \<and> sum_list row = 15)"
proof -
  let ?ps = "[str ''<en>Hi.</en>'', str ''<en>Hello.</en>'']"
  have ne: "[str ''Hi'', str ''Hello''] \<noteq> []"
    by simp
  have ps: "processTexts id [str ''Hi'', str ''Hello''] [str ''en'', str ''en''] 0 = Inr ?ps"
    by (simp add: eval_defs langAt_def removeDuplicate.simps)
  have mm: "Math_max (map length ?ps) = Some 15"
    by (simp add: Math_max_def str_def)
  have cp: "codePointAt (?ps ! 0) 0 = Some 60"
    by (simp add: codePointAt_def str_def isHighSurrogate_def)
  from C8_tokenize [OF ne ps, of "[7, 8, 9]"] obtain textIds textMask where
    r: "UnicodeProcessor_call id [7, 8, 9] [str ''Hi'', str ''Hello''] [str ''en'', str ''en'']
        = Inr (textIds, textMask)"
    and rows: "\<forall>i < length ?ps.
          length (textIds ! i) = 15
        \<and> (\<forall>j < length (?ps ! i).
              \<exists>codePoint. codePointAt (?ps ! i) j = Some codePoint
                \<and> textIds ! i ! j
                    = (if codePoint < length [7, 8, 9 :: int] then [7, 8, 9] ! codePoint else - 1))
        \<and> (\<forall>j < 15. length (?ps ! i) \<le> j \<longrightarrow> textIds ! i ! j = 0)
        \<and> (\<exists>row. textMask ! i = [row] \<and> length row = 15
              \<and> (\<forall>j < 15. row ! j = (if j < length (?ps ! i) then 1 else 0))
              \<and> sum_list row = real (length (?ps ! i)))"
    unfolding mm by auto
  have i0: "0 < length ?ps" and i1: "1 < length ?ps"
    by simp_all
  have l0: "length (?ps ! 0) = 12" and l1: "length (?ps ! 1) = 15"
    by (simp_all add: str_def)
  note r0 = rows [rule_format, OF i0, unfolded l0]
  note r1 = rows [rule_format, OF i1, unfolded l1]
  from r0 have a0: "length (textIds ! 0) = 15"
    by blast
  from r0 have b0: "\<forall>j < 12.
              \<exists>codePoint. codePointAt (?ps ! 0) j = Some codePoint
                \<and> textIds ! 0 ! j
                    = (if codePoint < length [7, 8, 9 :: int] then [7, 8, 9] ! codePoint else - 1)"
    by blast
  from r0 have c0: "\<forall>j < 15. 12 \<le> j \<longrightarrow> textIds ! 0 ! j = 0"
    by blast
  from r0 have d0: "\<exists>row. textMask ! 0 = [row] \<and> length row = 15 \<and> sum_list row = 12"
    by auto
  from r1 have a1: "length (textIds ! 1) = 15"
    by blast
  from r1 have d1: "\<exists>row. textMask ! 1 = [row] \<and> length row = 15 \<and> sum_list row = 15"
    by auto
  have "(0::nat) < 12"
    by simp
  from b0 [rule_format, OF this] cp have e0: "textIds ! 0 ! 0 = - 1"
    by simp
  from c0 have f0: "textIds ! 0 ! 12 = 0"
    by simp
  from r a0 a1 e0 f0 d0 d1 show ?thesis
    by blast
qed

subsection \<open>Chunking\<close>

lemmas chunk_defs = chunkText_def paragraphsOf_def sentencesOf_def trim_def isWhitespace_def str_def
  sentenceBoundary_def afterAbbreviation_def abbreviations_def isWordChar_def afterLastNewline_def


lemma length_trim: "length (trim t) \<le> length t"
proof -
  have "length (trim t) \<le> length (dropWhile isWhitespace t)"
    unfolding trim_def by (metis length_rev length_dropWhile_le)
  also have "\<dots> \<le> length t"
    by (rule length_dropWhile_le)
  finally show ?thesis .
qed

lemma packSentences_bound:
  assumes "c \<in> set (packSentences maxLen cur sents)"
    and "cur = [] \<or> int (length cur) \<le> maxLen \<or> (cur \<in> S \<and> maxLen < int (length cur))"
    and "set sents \<subseteq> S"
  shows "int (length c) \<le> maxLen
       \<or> (\<exists>sentence \<in> S. maxLen < int (length sentence) \<and> c = trim sentence)"
  using assms
proof (induction sents arbitrary: cur)
  case Nil
  then have c: "c = trim cur" and ne: "cur \<noteq> []"
    by (auto split: if_splits)
  from Nil.prems(2) ne show ?case
    using length_trim [of cur] c by auto
next
  case (Cons sentence rest)
  show ?case
  proof (cases "int (length cur) + int (length sentence) + 1 \<le> maxLen")
    case True
    let ?cur = "cur @ (if cur \<noteq> [] then str '' '' else []) @ sentence"
    have "int (length ?cur) \<le> maxLen"
      using True by (simp add: str_def)
    moreover have "c \<in> set (packSentences maxLen ?cur rest)"
      using Cons.prems(1) True by simp
    ultimately show ?thesis
      using Cons.IH [of ?cur] Cons.prems(3) by simp
  next
    case False
    then have "c \<in> set (if cur \<noteq> [] then [trim cur] else [])
        \<or> c \<in> set (packSentences maxLen sentence rest)"
      using Cons.prems(1) by auto
    then show ?thesis
    proof
      assume "c \<in> set (if cur \<noteq> [] then [trim cur] else [])"
      then have c: "c = trim cur" and ne: "cur \<noteq> []"
        by (auto split: if_splits)
      from Cons.prems(2) ne show ?thesis
        using length_trim [of cur] c by auto
    next
      assume r: "c \<in> set (packSentences maxLen sentence rest)"
      have "sentence \<in> S"
        using Cons.prems(3) by simp
      then have "sentence = [] \<or> int (length sentence) \<le> maxLen
          \<or> (sentence \<in> S \<and> maxLen < int (length sentence))"
        by auto
      from Cons.IH [OF r this] Cons.prems(3) show ?thesis by simp
    qed
  qed
qed

text \<open>
  C6. When every sentence of the text (each paragraph's pieces under the
  sentence-boundary split) has length at most \<open>maxLen\<close>, every chunk has length at most
  \<open>maxLen\<close>. In general a chunk longer than \<open>maxLen\<close> is a single sentence that is itself
  longer than \<open>maxLen\<close> (trimmed): nothing is split below a sentence.
\<close>

theorem C6_chunk_length:
  assumes "chunkText (JSString s) maxLen = Inr chunks"
  shows "((\<forall>paragraph \<in> set (paragraphsOf s). \<forall>sentence \<in> set (sentencesOf paragraph).
            int (length sentence) \<le> maxLen)
          \<longrightarrow> (\<forall>c \<in> set chunks. int (length c) \<le> maxLen))
       \<and> (\<forall>c \<in> set chunks. maxLen < int (length c) \<longrightarrow>
            (\<exists>paragraph \<in> set (paragraphsOf s). \<exists>sentence \<in> set (sentencesOf paragraph).
               maxLen < int (length sentence) \<and> c = trim sentence))"
proof -
  have each: "int (length c) \<le> maxLen
       \<or> (\<exists>paragraph \<in> set (paragraphsOf s). \<exists>sentence \<in> set (sentencesOf paragraph).
               maxLen < int (length sentence) \<and> c = trim sentence)"
    if "c \<in> set chunks" for c
  proof -
    from that assms obtain par where p: "par \<in> set (paragraphsOf s)"
      and c: "c \<in> set (packSentences maxLen [] (sentencesOf par))"
      by (auto simp: chunkText_def)
    from packSentences_bound [OF c, of "set (sentencesOf par)"] p show ?thesis
      by auto
  qed
  show ?thesis
  proof (intro conjI impI ballI)
    fix c
    assume "\<forall>paragraph \<in> set (paragraphsOf s). \<forall>sentence \<in> set (sentencesOf paragraph).
            int (length sentence) \<le> maxLen" and "c \<in> set chunks"
    then show "int (length c) \<le> maxLen"
      using each [of c] by fastforce
  next
    fix c
    assume "c \<in> set chunks" and "maxLen < int (length c)"
    then show "\<exists>paragraph \<in> set (paragraphsOf s). \<exists>sentence \<in> set (sentencesOf paragraph).
               maxLen < int (length sentence) \<and> c = trim sentence"
      using each [of c] by auto
  qed
qed

text \<open>C6 at a text of two sentences of lengths 15 and 12, with \<open>maxLen = 20\<close>.\<close>

theorem C6_chunk_length_witness:
  "chunkText (JSString (str ''Dr. Smith left. He returned.'')) 20
     = Inr [str ''Dr. Smith left.'', str ''He returned.'']
   \<and> int (length (str ''Dr. Smith left.'')) \<le> 20
   \<and> int (length (str ''He returned.'')) \<le> 20"
proof -
  let ?s = "str ''Dr. Smith left. He returned.''"
  have r: "chunkText (JSString ?s) 20 = Inr [str ''Dr. Smith left.'', str ''He returned.'']"
    by (simp add: chunk_defs)
  have ps: "paragraphsOf ?s = [?s]"
    by (simp add: chunk_defs)
  have ss: "sentencesOf ?s = [str ''Dr. Smith left.'', str ''He returned.'']"
    by (simp add: chunk_defs)
  have "\<forall>paragraph \<in> set (paragraphsOf ?s). \<forall>sentence \<in> set (sentencesOf paragraph).
            int (length sentence) \<le> 20"
    unfolding ps by (simp add: ss) (simp add: str_def)
  with C6_chunk_length [OF r]
  have "\<forall>c \<in> set [str ''Dr. Smith left.'', str ''He returned.'']. int (length c) \<le> 20"
    by blast
  with r show ?thesis by simp
qed

subsection \<open>Chunking keeps the text\<close>

lemma filter_dropWhile_not: "filter (\<lambda>c. \<not> P c) (dropWhile P t) = filter (\<lambda>c. \<not> P c) t"
  by (induction t) auto

lemma filter_nws_trim:
  "filter (\<lambda>c. \<not> isWhitespace c) (trim t) = filter (\<lambda>c. \<not> isWhitespace c) t"
  by (simp add: trim_def filter_dropWhile_not rev_filter [symmetric])

lemma filter_nws_afterLastNewline:
  "filter (\<lambda>c. \<not> isWhitespace c) (afterLastNewline (takeWhile isWhitespace cs)) = []"
proof -
  have "set (afterLastNewline (takeWhile isWhitespace cs)) \<subseteq> set (takeWhile isWhitespace cs)"
    unfolding afterLastNewline_def by (auto dest: set_takeWhileD)
  then have "\<forall>c \<in> set (afterLastNewline (takeWhile isWhitespace cs)). isWhitespace c"
    by (auto dest: set_takeWhileD)
  then show ?thesis
    by (simp add: filter_empty_conv)
qed

lemma filter_nws_splitParagraphs:
  "filter (\<lambda>c. \<not> isWhitespace c) (concat (splitParagraphs acc s))
     = filter (\<lambda>c. \<not> isWhitespace c) (acc @ s)"
proof (induction acc s rule: splitParagraphs.induct)
  case (1 acc)
  then show ?case by simp
next
  case (2 acc c cs)
  show ?case
  proof (cases "c = 0x0A \<and> 0x0A \<in> set (takeWhile isWhitespace cs)")
    case True
    then have "isWhitespace c"
      by (simp add: isWhitespace_def)
    with True 2 show ?thesis
      by (simp add: filter_nws_afterLastNewline filter_dropWhile_not)
  next
    case False
    with 2 show ?thesis by auto
  qed
qed

lemma filter_nws_splitSentences:
  "filter (\<lambda>c. \<not> isWhitespace c) (concat (splitSentences before acc s))
     = filter (\<lambda>c. \<not> isWhitespace c) (acc @ s)"
proof (induction before acc s rule: splitSentences.induct)
  case (1 before acc)
  then show ?case by simp
next
  case (2 before acc c cs)
  show ?case
  proof (cases "isWhitespace c \<and> sentenceBoundary before")
    case True
    with 2 show ?thesis
      by (simp add: filter_dropWhile_not)
  next
    case False
    with 2 show ?thesis by auto
  qed
qed

lemma filter_nws_packSentences:
  "filter (\<lambda>c. \<not> isWhitespace c) (concat (packSentences maxLen cur sents))
     = filter (\<lambda>c. \<not> isWhitespace c) (cur @ concat sents)"
proof (induction sents arbitrary: cur)
  case Nil
  then show ?case by (simp add: filter_nws_trim)
next
  case (Cons sentence rest)
  have sp: "isWhitespace 0x20"
    by (simp add: isWhitespace_def)
  show ?case
    using Cons [of "cur @ (if cur \<noteq> [] then str '' '' else []) @ sentence"] Cons [of sentence] sp
    by (simp add: filter_nws_trim str_def)
qed

lemma filter_nws_paragraphs:
  "filter (\<lambda>c. \<not> isWhitespace c) (concat (filter (\<lambda>p. trim p \<noteq> []) ps))
     = filter (\<lambda>c. \<not> isWhitespace c) (concat ps)"
proof (induction ps)
  case Nil
  then show ?case by simp
next
  case (Cons p ps)
  show ?case
  proof (cases "trim p = []")
    case True
    then have "filter (\<lambda>c. \<not> isWhitespace c) p = []"
      using filter_nws_trim [of p] by simp
    with True Cons show ?thesis by simp
  next
    case False
    with Cons show ?thesis by simp
  qed
qed

lemma filter_nws_chunks:
  "filter (\<lambda>c. \<not> isWhitespace c)
     (concat (concat (map (\<lambda>p. packSentences maxLen [] (sentencesOf p)) ps)))
   = filter (\<lambda>c. \<not> isWhitespace c) (concat ps)"
  by (induction ps)
    (simp_all add: filter_nws_packSentences sentencesOf_def filter_nws_splitSentences
      filter_nws_trim)

lemma trim_all_whitespace: "\<forall>c \<in> set t. isWhitespace c \<Longrightarrow> trim t = []"
proof -
  assume "\<forall>c \<in> set t. isWhitespace c"
  then have d: "dropWhile isWhitespace t = []"
    by (simp add: dropWhile_eq_Nil_conv)
  show ?thesis
    unfolding trim_def d by simp
qed

text \<open>
  C4 (as the code has it). For a string, \<open>chunkText\<close> returns a list of chunks in document
  order: the characters of the chunks other than whitespace are those of the text, in
  the same order. The list is empty exactly when the text has no character other than
  whitespace. For a value that is not a string it throws the \<open>Error\<close> naming the value's
  \<open>typeof\<close>.
\<close>

theorem C4_chunkText:
  "(\<exists>chunks. chunkText (JSString s) maxLen = Inr chunks
      \<and> (chunks = [] \<longleftrightarrow> (\<forall>c \<in> set s. isWhitespace c))
      \<and> filter (\<lambda>c. \<not> isWhitespace c) (concat chunks) = filter (\<lambda>c. \<not> isWhitespace c) s)
   \<and> chunkText (JSOther ty) maxLen = Inl (ExpectsString ty)"
proof -
  let ?chunks = "concat (map (\<lambda>p. packSentences maxLen [] (sentencesOf p)) (paragraphsOf s))"
  have r: "chunkText (JSString s) maxLen = Inr ?chunks"
    by (simp add: chunkText_def)
  have keep: "filter (\<lambda>c. \<not> isWhitespace c) (concat ?chunks) = filter (\<lambda>c. \<not> isWhitespace c) s"
    by (simp add: filter_nws_chunks paragraphsOf_def filter_nws_paragraphs
        filter_nws_splitParagraphs filter_nws_trim)
  have "?chunks = [] \<longleftrightarrow> (\<forall>c \<in> set s. isWhitespace c)"
  proof
    assume e: "?chunks = []"
    have "filter (\<lambda>c. \<not> isWhitespace c) s = filter (\<lambda>c. \<not> isWhitespace c) (concat ?chunks)"
      using keep by (rule sym)
    also have "\<dots> = []"
      by (simp only: e concat.simps filter.simps)
    finally show "\<forall>c \<in> set s. isWhitespace c"
      by (simp add: filter_empty_conv)
  next
    assume "\<forall>c \<in> set s. isWhitespace c"
    then have ts: "trim s = []"
      by (rule trim_all_whitespace)
    have "trim [] = []"
      by (simp add: trim_def)
    then have "paragraphsOf s = []"
      by (simp add: paragraphsOf_def ts)
    then show "?chunks = []"
      by simp
  qed
  with r keep show ?thesis
    by (simp add: chunkText_def)
qed

text \<open>C4 (as the code has it) at a text of two sentences, and at a number.\<close>

theorem C4_chunkText_witness:
  "(\<exists>chunks. chunkText (JSString (str ''Hi.  Bye.'')) 300 = Inr chunks
      \<and> chunks \<noteq> []
      \<and> filter (\<lambda>c. \<not> isWhitespace c) (concat chunks) = str ''Hi.Bye.'')
   \<and> chunkText (JSOther (str ''number'')) 300 = Inl (ExpectsString (str ''number''))"
proof -
  have "\<not> (\<forall>c \<in> set (str ''Hi.  Bye.''). isWhitespace c)"
    by (simp add: str_def isWhitespace_def)
  moreover have "filter (\<lambda>c. \<not> isWhitespace c) (str ''Hi.  Bye.'') = str ''Hi.Bye.''"
    by (simp add: str_def isWhitespace_def)
  ultimately show ?thesis
    using C4_chunkText [of "str ''Hi.  Bye.''" 300 "str ''number''"] by auto
qed

text \<open>
  C4 (as stated) fails at the empty string and at a string of two spaces: the list of
  chunks is empty.
\<close>

theorem C4_empty_list_counterexample:
  "chunkText (JSString []) 300 = Inr []
   \<and> chunkText (JSString (str ''  '')) 300 = Inr []"
  by (simp add: chunk_defs)

subsection \<open>Latent sampling\<close>

lemma Math_max_eq_Max: "xs \<noteq> [] \<Longrightarrow> Math_max xs = Some (Max (set xs))"
proof -
  assume ne: "xs \<noteq> []"
  then obtain m where m: "Math_max xs = Some m"
    using Math_max_Some by blast
  have "Max (set xs) = m"
    using Math_max_mem [OF m] Math_max_upper [OF m] by (intro Max_eqI) auto
  with m show ?thesis by simp
qed

lemma doubleRounding_mono: "doubleRounding rnd \<Longrightarrow> x \<le> y \<Longrightarrow> rnd x \<le> rnd y"
  by (simp add: doubleRounding_def)

lemma doubleRounding_of_int:
  "doubleRounding rnd \<Longrightarrow> \<bar>n\<bar> \<le> 2 ^ 53 \<Longrightarrow> rnd (of_int n) = of_int n"
  by (simp add: doubleRounding_def)

lemma doubleRounding_error:
  "doubleRounding rnd \<Longrightarrow> 2 powi (- 1022) \<le> \<bar>x\<bar> \<Longrightarrow> \<bar>rnd x - x\<bar> \<le> \<bar>x\<bar> / 2 ^ 53"
  by (simp add: doubleRounding_def)

lemma doubleRounding_0: "doubleRounding rnd \<Longrightarrow> rnd 0 = 0"
  using doubleRounding_of_int [of rnd 0] by simp


lemma doubleRounding_nonneg: "doubleRounding rnd \<Longrightarrow> 0 \<le> x \<Longrightarrow> 0 \<le> rnd x"
  using doubleRounding_mono [of rnd 0 x] by (simp add: doubleRounding_0)

lemma wavLengthOf_mono:
  assumes "doubleRounding rnd" and "a \<le> b"
  shows "wavLengthOf rnd sampleRate a \<le> wavLengthOf rnd sampleRate b"
proof -
  have "a * real sampleRate \<le> b * real sampleRate"
    using assms(2) by (simp add: mult_right_mono)
  then have "rnd (a * real sampleRate) \<le> rnd (b * real sampleRate)"
    by (rule doubleRounding_mono [OF assms(1)])
  then show ?thesis
    unfolding wavLengthOf_def by (rule floor_mono)
qed


lemma latentLengthOf_mono:
  assumes "doubleRounding rnd" and "a \<le> b"
  shows "latentLengthOf rnd a chunkSize \<le> latentLengthOf rnd b chunkSize"
proof -
  have "real_of_int a + real chunkSize \<le> real_of_int b + real chunkSize"
    using assms(2) by simp
  then have "rnd (real_of_int a + real chunkSize) \<le> rnd (real_of_int b + real chunkSize)"
    by (rule doubleRounding_mono [OF assms(1)])
  then have "rnd (real_of_int a + real chunkSize) - 1 \<le> rnd (real_of_int b + real chunkSize) - 1"
    by simp
  then have "rnd (rnd (real_of_int a + real chunkSize) - 1)
      \<le> rnd (rnd (real_of_int b + real chunkSize) - 1)"
    by (rule doubleRounding_mono [OF assms(1)])
  then have "rnd (rnd (real_of_int a + real chunkSize) - 1) / real chunkSize
      \<le> rnd (rnd (real_of_int b + real chunkSize) - 1) / real chunkSize"
    by (rule divide_right_mono) simp
  then have "rnd (rnd (rnd (real_of_int a + real chunkSize) - 1) / real chunkSize)
      \<le> rnd (rnd (rnd (real_of_int b + real chunkSize) - 1) / real chunkSize)"
    by (rule doubleRounding_mono [OF assms(1)])
  then show ?thesis
    unfolding latentLengthOf_def by (rule floor_mono)
qed


lemma floor_ceil_div_int:
  assumes "0 < (c::int)"
  shows "\<lceil>real_of_int w / real_of_int c\<rceil> = (w + c - 1) div c"
proof (rule ceiling_unique)
  let ?a = "w + c - 1"
  let ?z = "?a div c"
  have eq: "?a = c * ?z + ?a mod c"
    by simp
  have r: "0 \<le> ?a mod c" "?a mod c < c"
    using assms by simp_all
  have lo: "c * ?z - c < w"
    using eq r by linarith
  have hi: "w \<le> c * ?z"
    using eq r by linarith
  have "real_of_int (c * ?z - c) < real_of_int w"
    using lo by (simp only: of_int_less_iff)
  then have "(real_of_int ?z - 1) * real_of_int c < real_of_int w"
    by (simp add: algebra_simps)
  then show "real_of_int ?z - 1 < real_of_int w / real_of_int c"
    using assms by (simp add: pos_less_divide_eq)
  have "real_of_int w \<le> real_of_int (c * ?z)"
    using hi by (simp only: of_int_le_iff)
  then have "real_of_int w \<le> real_of_int ?z * real_of_int c"
    by (simp add: algebra_simps)
  then show "real_of_int w / real_of_int c \<le> real_of_int ?z"
    using assms by (simp add: pos_divide_le_eq)
qed

text \<open>
  The rounded quotient of two integers has the floor of the exact quotient, as long as the
  dividend is below \<open>2 ^ 53\<close> in magnitude: the rounding error is smaller than the
  distance \<open>1 / c\<close> of a quotient that is no integer to the nearest integer.
\<close>

lemma floor_rounded_quotient:
  assumes rnd: "doubleRounding rnd" and c: "0 < (c::int)" "c \<le> 2 ^ 53" and a: "\<bar>a\<bar> < 2 ^ 53"
  shows "\<lfloor>rnd (real_of_int a / real_of_int c)\<rfloor> = a div c"
proof (cases "a mod c = 0")
  case True
  then have eq: "a = c * (a div c)"
    by (metis mult_div_mod_eq add.right_neutral)
  have "real_of_int a / real_of_int c = real_of_int (a div c)"
    using c(1) by (subst eq) simp
  moreover have "\<bar>a\<bar> = c * \<bar>a div c\<bar>"
    using c(1) by (subst eq) (simp add: abs_mult)
  moreover have "1 * \<bar>a div c\<bar> \<le> c * \<bar>a div c\<bar>"
    using c(1) by (intro mult_right_mono) simp_all
  ultimately have q: "real_of_int a / real_of_int c = real_of_int (a div c)"
    and "\<bar>a div c\<bar> \<le> \<bar>a\<bar>"
    by simp_all
  then have "\<bar>a div c\<bar> \<le> 2 ^ 53"
    using a by linarith
  then show ?thesis
    using doubleRounding_of_int [OF rnd, of "a div c"] by (simp add: q)
next
  case False
  let ?q = "real_of_int a / real_of_int c"
  let ?n = "a div c"
  let ?r = "a mod c"
  have cr: "0 < real_of_int c"
    using c(1) by simp
  have r: "1 \<le> ?r" "?r \<le> c - 1"
    using False c(1) pos_mod_sign [of c a] pos_mod_bound [of c a] by linarith+
  have q: "?q = real_of_int ?n + real_of_int ?r / real_of_int c"
  proof -
    have "real_of_int a = real_of_int (c * ?n + ?r)"
      by simp
    then have "real_of_int a = real_of_int c * real_of_int ?n + real_of_int ?r"
      by (simp only: of_int_add of_int_mult)
    then show ?thesis
      using cr by (simp add: field_simps)
  qed
  have lo: "real_of_int ?n + 1 / real_of_int c \<le> ?q"
    unfolding q using r(1) cr by (simp add: divide_right_mono)
  have "real_of_int ?r / real_of_int c \<le> (real_of_int c - 1) / real_of_int c"
    using r(2) cr by (intro divide_right_mono) linarith+
  moreover have "(real_of_int c - 1) / real_of_int c = 1 - 1 / real_of_int c"
    using cr by (simp add: diff_divide_distrib)
  ultimately have hi: "?q \<le> real_of_int ?n + 1 - 1 / real_of_int c"
    unfolding q by linarith
  have a0: "a \<noteq> 0"
    using False by auto
  then have "1 \<le> \<bar>a\<bar>"
    by simp
  then have "real_of_int 1 \<le> real_of_int \<bar>a\<bar>"
    by (simp only: of_int_le_iff)
  then have "1 \<le> \<bar>real_of_int a\<bar>"
    by simp
  then have "1 / real_of_int c \<le> \<bar>?q\<bar>"
    using cr by (simp add: divide_right_mono)
  moreover have "real_of_int c \<le> 2 ^ 53"
    using c(2) by (metis of_int_le_iff of_int_numeral of_int_power)
  then have "1 / 2 ^ 53 \<le> 1 / real_of_int c"
    using cr by (simp add: frac_le)
  moreover have "(2::real) powi (- 1022) \<le> 1 / 2 ^ 53"
    by (simp add: power_int_minus field_simps)
  ultimately have "2 powi (- 1022) \<le> \<bar>?q\<bar>"
    by linarith
  from doubleRounding_error [OF rnd this]
  have err: "\<bar>rnd ?q - ?q\<bar> \<le> \<bar>?q\<bar> / 2 ^ 53" .
  have "\<bar>real_of_int a\<bar> < 2 ^ 53"
    using a by (metis of_int_abs of_int_less_iff of_int_numeral of_int_power)
  then have "\<bar>?q\<bar> / 2 ^ 53 < 1 / real_of_int c"
    using cr by (simp add: field_simps)
  with err have e: "\<bar>rnd ?q - ?q\<bar> < 1 / real_of_int c"
    by linarith
  have "real_of_int ?n \<le> rnd ?q" "rnd ?q < real_of_int ?n + 1"
    using e lo hi by linarith+
  then show ?thesis
    by (simp add: floor_unique)
qed

lemma latentLengthOf_ceiling:
  assumes rnd: "doubleRounding rnd" and c: "0 < chunkSize"
    and b: "\<bar>len\<bar> + int chunkSize \<le> 2 ^ 53"
  shows "latentLengthOf rnd len chunkSize = \<lceil>real_of_int len / real chunkSize\<rceil>"
proof -
  have 1: "rnd (real_of_int len + real chunkSize) = real_of_int (len + int chunkSize)"
    using doubleRounding_of_int [OF rnd, of "len + int chunkSize"] b by simp
  have 2: "rnd (real_of_int (len + int chunkSize) - 1) = real_of_int (len + int chunkSize - 1)"
    using doubleRounding_of_int [OF rnd, of "len + int chunkSize - 1"] b c by simp
  have "\<lfloor>rnd (real_of_int (len + int chunkSize - 1) / real_of_int (int chunkSize))\<rfloor>
      = (len + int chunkSize - 1) div int chunkSize"
    using b c by (intro floor_rounded_quotient [OF rnd]) linarith+
  then have "latentLengthOf rnd len chunkSize = (len + int chunkSize - 1) div int chunkSize"
    unfolding latentLengthOf_def 1 2 by simp
  then show ?thesis
    using floor_ceil_div_int [of "int chunkSize" len] c by simp
qed


lemma maskRow_nth:
  "t < m \<Longrightarrow> maskRow len m ! t = (if int t < len then 1 else 0)"
  by (auto simp: maskRow_eq nth_append)

lemma length_maskRow: "length (maskRow len m) = m"
  by (auto simp: maskRow_eq)

lemma Math_max_latentLengths:
  assumes "doubleRounding rnd" and "duration \<noteq> []"
  shows "Math_max (map (\<lambda>len. latentLengthOf rnd len chunkSize)
                     (map (wavLengthOf rnd sampleRate) duration))
         = Some (latentLengthOf rnd (wavLengthOf rnd sampleRate (Max (set duration))) chunkSize)"
    (is "Math_max ?ls = Some ?m")
proof -
  have "?ls \<noteq> []"
    using assms(2) by simp
  then obtain k where k: "Math_max ?ls = Some k"
    using Math_max_Some by blast
  have "Max (set duration) \<in> set duration"
    using assms(2) by (intro Max_in) auto
  then have mem: "?m \<in> set ?ls"
    by auto
  have "\<forall>x \<in> set ?ls. x \<le> ?m"
  proof
    fix x assume "x \<in> set ?ls"
    then obtain d where d: "d \<in> set duration"
      and x: "x = latentLengthOf rnd (wavLengthOf rnd sampleRate d) chunkSize"
      by auto
    have "d \<le> Max (set duration)"
      using d by simp
    then have "wavLengthOf rnd sampleRate d \<le> wavLengthOf rnd sampleRate (Max (set duration))"
      by (rule wavLengthOf_mono [OF assms(1)])
    then show "x \<le> ?m"
      unfolding x by (rule latentLengthOf_mono [OF assms(1)])
  qed
  with k mem show ?thesis
    using Math_max_unique [OF k] by blast
qed


lemma sampleNoisyLatent_result:
  fixes duration :: "real list"
    and sampleRate baseChunkSize chunkCompress latentDim :: nat
  assumes "doubleRounding rnd" and "duration \<noteq> []" and "0 < baseChunkSize * chunkCompress"
  defines "chunkSize \<equiv> baseChunkSize * chunkCompress"
  defines "latentLen \<equiv>
      latentLengthOf rnd (wavLengthOf rnd sampleRate (Max (set duration))) chunkSize"
  assumes "0 \<le> latentLen"
  shows "sampleNoisyLatent rnd random duration sampleRate baseChunkSize chunkCompress latentDim
      = Inr (maskedLatent rnd random duration sampleRate chunkSize (latentDim * chunkCompress)
               (nat latentLen),
             map (\<lambda>d. [maskRow (latentLengthOf rnd (wavLengthOf rnd sampleRate d) chunkSize)
                           (nat latentLen)]) duration,
             \<lambda>i. random (i + 2 * (length duration * (latentDim * chunkCompress) * nat latentLen)))"
proof -
  have cs: "0 < chunkSize"
    using assms(3) by (simp add: chunkSize_def)
  let ?wavLengths = "map (wavLengthOf rnd sampleRate) duration"
  let ?latentLengths = "map (\<lambda>len. latentLengthOf rnd len chunkSize) ?wavLengths"
  have mm: "Math_max ?latentLengths = Some latentLen"
    using Math_max_latentLengths [OF assms(1,2)] by (simp add: latentLen_def)
  have md: "Math_max duration = Some (Max (set duration))"
    using assms(2) by (rule Math_max_eq_Max)
  have lm: "lengthToMask ?latentLengths (Some latentLen)
      = Inr (map (\<lambda>len. [maskRow len (nat latentLen)]) ?latentLengths)"
    using mm assms(6) by (rule lengthToMask_nonneg)
  show ?thesis
    using cs lm
    by (simp add: sampleNoisyLatent_def md Let_def chunkSize_def [symmetric]
        latentLen_def [symmetric] maskedLatent_def maskRow_nth comp_def)
qed

lemma roundDouble_tenths:
  "roundDouble (5404319552844595 / 2 ^ 54 * 10) = 3"
  "roundDouble (5 / 4) = 5 / 4"
proof -
  show "roundDouble (5404319552844595 / 2 ^ 54 * 10) = 3"
    by (subst roundDouble_eval [of 1]) (simp_all add: roundHalfEven_def)
  show "roundDouble (5 / 4) = 5 / 4"
    by (subst roundDouble_exact [of _ 5 "- 2"]) simp_all
qed




subsection \<open>Synthesis pipeline\<close>

lemma stepsAnnounced_any_prev: "stepsAnnounced T None b \<Longrightarrow> stepsAnnounced T prev b"
  by (cases b) (auto split: event.splits)

lemma stepsAnnounced_append:
  "stepsAnnounced T prev a \<Longrightarrow> stepsAnnounced T None b \<Longrightarrow> stepsAnnounced T prev (a @ b)"
  by (induction a arbitrary: prev) (auto simp: stepsAnnounced_any_prev)

lemma callbackBeforeEachStep_append:
  "callbackBeforeEachStep T a \<Longrightarrow> callbackBeforeEachStep T b
     \<Longrightarrow> callbackBeforeEachStep T (a @ b)"
  unfolding callbackBeforeEachStep_def by (rule stepsAnnounced_append)

lemma throwsAbort_append:
  "throwsAbort f a None \<Longrightarrow> throwsAbort f b err \<Longrightarrow> throwsAbort f (a @ b) err"
  by (auto simp: throwsAbort_def)

lemma extends_refl: "extends f T st st None"
  by (simp add: extends_def callbackBeforeEachStep_def throwsAbort_def)

lemma extends_refl_err: "extends f T st st err"
  by (simp add: extends_def callbackBeforeEachStep_def throwsAbort_def)

lemma extends_trans:
  "extends f T st st1 None \<Longrightarrow> extends f T st1 st2 err \<Longrightarrow> extends f T st st2 err"
  unfolding extends_def
  by (metis append.assoc callbackBeforeEachStep_append throwsAbort_append)

lemma extends_emit_other:
  "(\<forall>s. e \<noteq> VectorEstimatorRun s) \<Longrightarrow> (\<forall>s T'. e \<noteq> ProgressCall s T')
     \<Longrightarrow> extends f T st (emit e st) err"
  unfolding extends_def emit_def
  by (rule exI [of _ "[e]"]) (auto simp: callbackBeforeEachStep_def throwsAbort_def split: event.splits)

lemma extends_random: "extends f T st st' err \<Longrightarrow> extends f T (st\<lparr>st_random := r\<rparr>) st' err"
  by (simp add: extends_def)

lemma denoiseStep_extends:
  assumes "denoiseStep tts style textEmb lmt tmt bsz T (Some f) step xt st = (st', r)"
  shows "extends f T st st' (errorOf r)"
proof (cases "f (step + 1) T")
  case None
  show ?thesis
  proof (cases "shapeOf xt")
    case (Inl e)
    with None assms have "st' = emit (ProgressCall (step + 1) T) st" "r = Inl e"
      by (auto simp: denoiseStep_def)
    then show ?thesis
      using None unfolding extends_def emit_def
      by (intro exI [of _ "[ProgressCall (step + 1) T]"])
        (auto simp: callbackBeforeEachStep_def throwsAbort_def)
  next
    case (Inr sh)
    obtain d l where sh: "sh = (d, l)" by (cases sh)
    from None Inr sh assms
    have st': "st' = emit (VectorEstimatorRun step) (emit (ProgressCall (step + 1) T) st)"
      by (auto simp: denoiseStep_def Let_def split: sum.splits)
    show ?thesis
      using None unfolding extends_def st' emit_def
      by (intro exI [of _ "[ProgressCall (step + 1) T, VectorEstimatorRun step]"])
        (auto simp: callbackBeforeEachStep_def throwsAbort_def)
  qed
next
  case (Some thrown)
  with assms have "st' = emit (ProgressCall (step + 1) T) st" "r = Inl (CallbackError thrown)"
    by (auto simp: denoiseStep_def)
  then show ?thesis
    using Some unfolding extends_def emit_def
    by (intro exI [of _ "[ProgressCall (step + 1) T]"])
      (auto simp: callbackBeforeEachStep_def throwsAbort_def errorOf_def)
qed

lemma denoiseLoop_extends:
  assumes "\<forall>step xt st st' r. body step xt st = (st', r) \<longrightarrow> extends f T st st' (errorOf r)"
    and "denoiseLoop body totalStep step xt st = (st', r)"
  shows "extends f T st st' (errorOf r)"
  using assms
proof (induction body totalStep step xt st rule: denoiseLoop.induct)
  case (1 body totalStep step xt st)
  show ?case
  proof (cases "int step < totalStep")
    case False
    with "1.prems" show ?thesis
      by (simp add: denoiseLoop.simps extends_refl_err)
  next
    case True
    obtain st1 r1 where b: "body step xt st = (st1, r1)"
      by (cases "body step xt st")
    have e1: "extends f T st st1 (errorOf r1)"
      using b "1.prems"(1) by blast
    show ?thesis
    proof (cases r1)
      case (Inl e)
      with True b "1.prems" have "st' = st1" "r = Inl e"
        by (simp_all add: denoiseLoop.simps [of body totalStep step])
      with e1 Inl show ?thesis by (simp add: errorOf_def)
    next
      case (Inr xt1)
      with True b "1.prems" have "denoiseLoop body totalStep (Suc step) xt1 st1 = (st', r)"
        by (simp add: denoiseLoop.simps [of body totalStep step])
      with "1.IH" [OF True b [symmetric] Inr "1.prems"(1)]
      have "extends f T st1 st' (errorOf r)"
        by simp
      moreover have "extends f T st st1 None"
        using e1 Inr by (simp add: errorOf_def)
      ultimately show ?thesis
        by (rule extends_trans [rotated])
    qed
  qed
qed


lemma vocode_extends: "vocode tts bsz xt st = (st', r) \<Longrightarrow> extends f T st st' err"
  by (auto simp: vocode_def Let_def extends_refl_err extends_emit_other
      split: sum.splits prod.splits)

lemma extends_weaken_ok: "extends f T st st' None \<Longrightarrow> extends f T st st' err"
  by (auto simp: extends_def throwsAbort_def)

lemma denoiseAndVocode_extends:
  assumes "denoiseAndVocode rnd tts style textEmb tmt bsz T (Some f) duration st = (st', r)"
  shows "extends f T st st' (errorOf r)"
proof (cases "sampleNoisyLatent rnd (st_random st) duration (cfg_sample_rate tts)
             (cfg_base_chunk_size tts) (cfg_chunk_compress_factor tts) (cfg_latent_dim tts)")
  case (Inl e)
  with assms show ?thesis
    by (simp add: denoiseAndVocode_def extends_refl_err)
next
  case (Inr res)
  obtain initialXt latentMask random' where res: "res = (initialXt, latentMask, random')"
    by (cases res)
  show ?thesis
  proof (cases latentMask)
    case Nil
    with assms Inr res have "st' = st\<lparr>st_random := random'\<rparr>"
      by (simp add: denoiseAndVocode_def)
    then show ?thesis
      by (simp add: extends_def callbackBeforeEachStep_def throwsAbort_def)
  next
    case (Cons m0 ms)
    let ?lmt = "(concat (concat latentMask), [bsz, 1, length (latentMask ! 0 ! 0)])"
    let ?st0 = "st\<lparr>st_random := random'\<rparr>"
    obtain st1 r1 where l: "denoiseLoop (denoiseStep tts style textEmb ?lmt tmt bsz T (Some f))
        T 0 (map (map (map Num)) initialXt) ?st0 = (st1, r1)"
      by (cases "denoiseLoop (denoiseStep tts style textEmb ?lmt tmt bsz T (Some f))
        T 0 (map (map (map Num)) initialXt) ?st0")
    have "extends f T ?st0 st1 (errorOf r1)"
      using denoiseStep_extends l by (intro denoiseLoop_extends [OF _ l]) blast
    then have e1: "extends f T st st1 (errorOf r1)"
      by (simp add: extends_def)
    show ?thesis
    proof (cases r1)
      case (Inl e)
      with assms Inr res Cons l have "st' = st1" "r = Inl e"
        by (simp_all add: denoiseAndVocode_def Let_def)
      with e1 Inl show ?thesis by (simp add: errorOf_def)
    next
      case (Inr xt)
      with assms \<open>sampleNoisyLatent _ _ _ _ _ _ _ = Inr res\<close> res Cons l
      have "vocode tts bsz xt st1 = (st', r)"
        by (simp add: denoiseAndVocode_def Let_def)
      then have "extends f T st1 st' (errorOf r)"
        by (rule vocode_extends)
      moreover have "extends f T st st1 None"
        using e1 Inr by (simp add: errorOf_def)
      ultimately show ?thesis
        by (rule extends_trans [rotated])
    qed
  qed
qed

lemma extends_emit_then:
  "(\<forall>s. e \<noteq> VectorEstimatorRun s) \<Longrightarrow> (\<forall>s T'. e \<noteq> ProgressCall s T')
     \<Longrightarrow> extends f T (emit e st) st' err \<Longrightarrow> extends f T st st' err"
  using extends_emit_other [of e f T st None] extends_trans by blast

lemma extends_emit2:
  assumes "extends f T (emit TextEncoderRun (emit DurationPredictorRun st)) st' err"
  shows "extends f T st st' err"
proof -
  have "extends f T (emit DurationPredictorRun st) st' err"
    using assms by (rule extends_emit_then [rotated 2]) simp_all
  then show ?thesis
    by (rule extends_emit_then [rotated 2]) simp_all
qed

lemma infer_cases:
  assumes "infer rnd tts textList langList style T speed cb st = (st', r)"
  obtains (early) e where "r = Inl e"
      and "st' = st \<or> st' = emit DurationPredictorRun st
           \<or> st' = emit TextEncoderRun (emit DurationPredictorRun st)"
  | (late) textEmb tmt rawDuration r' where "speed \<noteq> 0"
      and "denoiseAndVocode rnd tts style textEmb tmt (length textList) T cb
             (map (\<lambda>d. rnd (d / speed)) rawDuration)
             (emit TextEncoderRun (emit DurationPredictorRun st)) = (st', r')"
      and "r = (case r' of Inl e \<Rightarrow> Inl e
                | Inr wav \<Rightarrow> Inr (wav, map (\<lambda>d. rnd (d / speed)) rawDuration))"
proof (cases "UnicodeProcessor_call (tp_normalize tts) (tp_indexer tts) textList langList")
  case (Inl e)
  with assms have "r = Inl e" "st' = st"
    by (simp_all add: infer_def)
  then show ?thesis by (intro early) simp_all
next
  case (Inr tok)
  obtain textIds textMask where tok: "tok = (textIds, textMask)"
    by (cases tok)
  show ?thesis
  proof (cases textIds)
    case Nil
    with assms Inr tok have "r = Inl TypeError" "st' = st"
      by (simp_all add: infer_def)
    then show ?thesis by (intro early) simp_all
  next
    case (Cons ids0 idsRest)
    let ?bsz = "length textList"
    let ?tit = "(concat textIds, [?bsz, length ids0])"
    let ?tmt = "(concat (concat textMask), [?bsz, 1, length (textMask ! 0 ! 0)])"
    let ?st1 = "emit DurationPredictorRun st"
    let ?st2 = "emit TextEncoderRun ?st1"
    show ?thesis
    proof (cases "dpOrt tts ?tit (style_dp style) ?tmt")
      case (Inl e)
      with assms \<open>UnicodeProcessor_call _ _ _ _ = Inr tok\<close> tok Cons
      have "r = Inl e" "st' = ?st1"
        by (simp_all add: infer_def Let_def)
      then show ?thesis by (intro early) simp_all
    next
      case dp: (Inr rawDuration)
      show ?thesis
      proof (cases "textEncOrt tts ?tit (style_ttl style) ?tmt")
        case (Inl e)
        with assms \<open>UnicodeProcessor_call _ _ _ _ = Inr tok\<close> tok Cons dp
        have "r = Inl e" "st' = ?st2"
          by (simp_all add: infer_def Let_def)
        then show ?thesis by (intro early) simp_all
      next
        case te: (Inr textEmb)
        show ?thesis
        proof (cases "speed = 0")
          case True
          with assms \<open>UnicodeProcessor_call _ _ _ _ = Inr tok\<close> tok Cons dp te
          have "r = Inl RangeError" "st' = ?st2"
            by (simp_all add: infer_def Let_def)
          then show ?thesis by (intro early) simp_all
        next
          case False
          obtain st'' r' where dv: "denoiseAndVocode rnd tts style textEmb ?tmt ?bsz T cb
             (map (\<lambda>d. rnd (d / speed)) rawDuration) ?st2 = (st'', r')"
            by (cases "denoiseAndVocode rnd tts style textEmb ?tmt ?bsz T cb
             (map (\<lambda>d. rnd (d / speed)) rawDuration) ?st2")
          with assms \<open>UnicodeProcessor_call _ _ _ _ = Inr tok\<close> tok Cons dp te False
          have "st' = st''"
            and "r = (case r' of Inl e \<Rightarrow> Inl e
                | Inr wav \<Rightarrow> Inr (wav, map (\<lambda>d. rnd (d / speed)) rawDuration))"
            by (simp_all add: infer_def Let_def split: sum.splits)
          with dv False show ?thesis by (intro late) simp_all
        qed
      qed
    qed
  qed
qed

lemma infer_extends:
  assumes "infer rnd tts textList langList style T speed (Some f) st = (st', r)"
  shows "extends f T st st' (errorOf r)"
  using assms
proof (cases rule: infer_cases)
  case (early e)
  from early(2) show ?thesis
  proof (elim disjE)
    assume "st' = st"
    then show ?thesis by (simp add: extends_refl_err)
  next
    assume "st' = emit DurationPredictorRun st"
    then show ?thesis by (simp add: extends_emit_other)
  next
    assume "st' = emit TextEncoderRun (emit DurationPredictorRun st)"
    then have "extends f T (emit TextEncoderRun (emit DurationPredictorRun st)) st' (errorOf r)"
      by (simp add: extends_refl_err)
    then show ?thesis by (rule extends_emit2)
  qed
next
  case (late textEmb tmt rawDuration r')
  from denoiseAndVocode_extends [OF late(2)]
  have "extends f T st st' (errorOf r')"
    by (rule extends_emit2)
  moreover have "errorOf r = errorOf r'"
    using late(3) by (simp add: errorOf_def split: sum.splits)
  ultimately show ?thesis by simp
qed


lemma synthesizeChunks_extends:
  assumes "synthesizeChunks rnd tts lang style T speed silenceDuration (Some f) chunks acc st
             = (st', r)"
  shows "extends f T st st' (errorOf r)"
  using assms
proof (induction chunks arbitrary: acc st)
  case Nil
  then show ?case by (simp add: extends_refl_err)
next
  case (Cons chunk rest)
  obtain st1 r1 where i: "infer rnd tts [chunk] [lang] style T speed (Some f) st = (st1, r1)"
    by (cases "infer rnd tts [chunk] [lang] style T speed (Some f) st")
  have e1: "extends f T st st1 (errorOf r1)"
    using i by (rule infer_extends)
  show ?case
  proof (cases r1)
    case (Inl e)
    with Cons.prems i have "st' = st1" "r = Inl e"
      by simp_all
    with e1 Inl show ?thesis by (simp add: errorOf_def)
  next
    case (Inr chunkResult)
    then have ok: "extends f T st st1 None"
      using e1 by (simp add: errorOf_def)
    show ?thesis
    proof (cases "accumulate rnd (cfg_sample_rate tts) silenceDuration acc chunkResult")
      case (Inl e)
      with Cons.prems i \<open>r1 = Inr chunkResult\<close> have "st' = st1"
        by simp
      with ok show ?thesis by (simp add: extends_weaken_ok)
    next
      case acc': (Inr acc')
      with Cons.prems i Inr
      have "synthesizeChunks rnd tts lang style T speed silenceDuration (Some f) rest acc' st1
          = (st', r)"
        by simp
      then have "extends f T st1 st' (errorOf r)"
        by (rule Cons.IH)
      with ok show ?thesis by (rule extends_trans)
    qed
  qed
qed

lemma call_extends:
  assumes "TextToSpeech_call rnd tts v lang style T speed silenceDuration (Some f) st = (st', r)"
  shows "extends f T st st' (errorOf r)"
proof (cases "case snd (style_ttl style) of [] \<Rightarrow> True | d0 # _ \<Rightarrow> d0 \<noteq> 1")
  case True
  with assms have "st' = st"
    by (simp add: TextToSpeech_call_def)
  then show ?thesis by (simp add: extends_refl_err)
next
  case False
  let ?maxLen = "if lang = str ''ko'' then 120 else 300 :: int"
  show ?thesis
  proof (cases "chunkText v ?maxLen")
    case (Inl e)
    with assms False have "st' = st"
      by (simp add: TextToSpeech_call_def)
    then show ?thesis by (simp add: extends_refl_err)
  next
    case (Inr textList)
    obtain st1 r1 where s: "synthesizeChunks rnd tts lang style T speed silenceDuration (Some f)
        textList ([], 0) st = (st1, r1)"
      by (cases "synthesizeChunks rnd tts lang style T speed silenceDuration (Some f)
        textList ([], 0) st")
    with assms False Inr have "st' = st1" and "errorOf r = errorOf r1"
      by (auto simp: TextToSpeech_call_def Let_def errorOf_def split: sum.splits)
    with synthesizeChunks_extends [OF s] show ?thesis by simp
  qed
qed

text \<open>
  C2. For every synthesis call with a progress callback supplied: the callback is invoked
  with \<open>(s + 1, totalStep)\<close> immediately before the vector estimator runs for step \<open>s\<close>,
  for every step that runs, and whenever an invocation of the callback throws, the call does
  not return a waveform: it fails with the callback's exception.
\<close>

theorem C2_progress_callback:
  assumes "TextToSpeech_call rnd tts v lang style totalStep speed silenceDuration (Some f) st
             = (st', r)"
  shows "\<exists>new. st_trace st' = st_trace st @ new
           \<and> callbackBeforeEachStep totalStep new
           \<and> (\<forall>s T thrown. ProgressCall s T \<in> set new \<longrightarrow> f s T = Some thrown
                 \<longrightarrow> r = Inl (CallbackError thrown))"
  using call_extends [OF assms]
  by (auto simp: extends_def throwsAbort_def errorOf_def split: sum.splits)

lemma call_single:
  fixes nfkd :: "jsstring \<Rightarrow> jsstring" and chunk lang :: jsstring
  assumes "isValidLang lang"
  defines "p \<equiv> wrapLang lang (cleanText nfkd chunk)"
  shows "UnicodeProcessor_call nfkd indexer [chunk] [lang]
      = Inr ([map (tokenId indexer p) [0..<length p]], [[replicate (length p) 1]])"
proof -
  have ps: "processTexts nfkd [chunk] [lang] 0 = Inr [p]"
    using assms(1) by (simp add: preprocessText_def langAt_def p_def)
  have "Math_max (map length [p]) = Some (length p)"
    by (simp add: Math_max_def)
  from tokenize_result [OF this, of indexer] ps show ?thesis
    by (simp add: UnicodeProcessor_call_def)
qed

lemma infer_single:
  fixes tts :: "TextToSpeech" and chunk lang :: jsstring
  assumes "isValidLang lang"
  defines "p \<equiv> wrapLang lang (cleanText (tp_normalize tts) chunk)"
  defines "tit \<equiv> (map (tokenId (tp_indexer tts) p) [0..<length p], [1, length p])"
    and "tmt \<equiv> (replicate (length p) (1::real), [1, 1, length p])"
  assumes "dpOrt tts tit (style_dp style) tmt = Inr raw"
    and "textEncOrt tts tit (style_ttl style) tmt = Inr emb"
    and "speed \<noteq> 0"
  shows "infer rnd tts [chunk] [lang] style T speed cb st
      = (case denoiseAndVocode rnd tts style emb tmt 1 T cb (map (\<lambda>d. rnd (d / speed)) raw)
                (emit TextEncoderRun (emit DurationPredictorRun st)) of
           (st', Inl e) \<Rightarrow> (st', Inl e)
         | (st', Inr wav) \<Rightarrow> (st', Inr (wav, map (\<lambda>d. rnd (d / speed)) raw)))"
proof -
  have c: "UnicodeProcessor_call (tp_normalize tts) (tp_indexer tts) [chunk] [lang]
      = Inr ([map (tokenId (tp_indexer tts) p) [0..<length p]], [[replicate (length p) 1]])"
    unfolding p_def using assms(1) by (rule call_single)
  show ?thesis
    using assms(5-7) unfolding tit_def tmt_def
    by (simp add: infer_def c Let_def)
qed

lemma denoiseAndVocode_reaches_loop:
  fixes duration :: "real list" and tts :: "TextToSpeech" and st :: pstate and bsz :: nat
  assumes "doubleRounding rnd" and "duration \<noteq> []"
    and "0 < cfg_base_chunk_size tts * cfg_chunk_compress_factor tts"
    and "0 \<le> latentFrames rnd tts duration"
  defines "chunkSize \<equiv> cfg_base_chunk_size tts * cfg_chunk_compress_factor tts"
  defines "L \<equiv> nat (latentFrames rnd tts duration)"
  defines "D \<equiv> cfg_latent_dim tts * cfg_chunk_compress_factor tts"
  defines "xt0 \<equiv> maskedLatent rnd (st_random st) duration (cfg_sample_rate tts) chunkSize D L"
  defines "lmt \<equiv>
      (concat (concat (map (\<lambda>d. [maskRow (latentLengthOf rnd
                                            (wavLengthOf rnd (cfg_sample_rate tts) d) chunkSize) L])
                         duration)),
       [bsz, 1, L])"
  defines "st0 \<equiv> st\<lparr>st_random := \<lambda>i. st_random st (i + 2 * (length duration * D * L))\<rparr>"
  shows "denoiseAndVocode rnd tts style emb tmt bsz T cb duration st
      = (case denoiseLoop (denoiseStep tts style emb lmt tmt bsz T cb) T 0
                (map (map (map Num)) xt0) st0 of
           (st', Inl e) \<Rightarrow> (st', Inl e)
         | (st', Inr xt) \<Rightarrow> vocode tts bsz xt st')"
proof -
  obtain d ds where d: "duration = d # ds"
    using assms(2) by (cases duration) auto
  have "sampleNoisyLatent rnd (st_random st) duration (cfg_sample_rate tts)
          (cfg_base_chunk_size tts) (cfg_chunk_compress_factor tts) (cfg_latent_dim tts)
      = Inr (xt0,
             map (\<lambda>d. [maskRow (latentLengthOf rnd (wavLengthOf rnd (cfg_sample_rate tts) d)
                                  chunkSize) L]) duration,
             \<lambda>i. st_random st (i + 2 * (length duration * D * L)))"
    unfolding xt0_def D_def chunkSize_def L_def latentFrames_def
    using assms(1-3) assms(4) [unfolded latentFrames_def]
    by (rule sampleNoisyLatent_result)
  then show ?thesis
    unfolding lmt_def st0_def
    by (simp add: denoiseAndVocode_def d length_maskRow Let_def)
qed

lemma denoiseLoop_zero:
  "totalStep \<le> int step \<Longrightarrow> denoiseLoop body totalStep step xt st = (st, Inr xt)"
  by (simp add: denoiseLoop.simps)

lemma denoiseLoop_first_throws:
  assumes "0 < T" and "f 1 T = Some thrown"
  shows "denoiseLoop (denoiseStep tts style emb lmt tmt bsz T (Some f)) T 0 xt st
      = (emit (ProgressCall 1 T) st, Inl (CallbackError thrown))"
  using assms by (simp add: denoiseLoop.simps [of _ T 0] denoiseStep_def)

lemma shapeOf_maskedLatent:
  assumes "duration \<noteq> []" and "0 < D"
  shows "shapeOf (map (map (map Num)) (maskedLatent rnd random duration sampleRate chunkSize D L))
      = Inr (D, L)"
proof -
  obtain d ds where d: "duration = d # ds"
    using assms(1) by (cases duration) auto
  obtain D' where D: "D = Suc D'"
    using assms(2) by (cases D) auto
  show ?thesis
    by (simp add: shapeOf_def maskedLatent_def d D upt_conv_Cons del: upt_Suc)
qed

lemma shapeOf_reshape3:
  assumes "0 < bsz" and "0 < D"
  shows "shapeOf (reshape3 denoised bsz D L) = Inr (D, L)"
proof -
  obtain b' where b: "bsz = Suc b'"
    using assms(1) by (cases bsz) auto
  obtain D' where D: "D = Suc D'"
    using assms(2) by (cases D) auto
  show ?thesis
    by (simp add: shapeOf_def reshape3_def b D upt_conv_Cons del: upt_Suc)
qed

lemma vocode_result:
  assumes "shapeOf xt = Inr (D, L)"
    and "vocoderOrt tts (concat (concat xt), [bsz, D, L]) = Inr wav"
  shows "vocode tts bsz xt st
      = (emit (VocoderRun (concat (concat xt), [bsz, D, L])) st, Inr wav)"
  using assms by (simp add: vocode_def Let_def)

lemma denoiseStep_succeeds:
  assumes "0 < bsz" and "0 < D"
    and "case cb of None \<Rightarrow> True | Some f \<Rightarrow> \<forall>s T'. f s T' = None"
    and "\<forall>x emb' ttl' lm' tm' cur tot. \<exists>den. vectorEstOrt tts x emb' ttl' lm' tm' cur tot = Inr den"
    and "shapeOf xt = Inr (D, L)"
  shows "\<exists>st' xt'. denoiseStep tts style emb lmt tmt bsz T cb step xt st = (st', Inr xt')
           \<and> shapeOf xt' = Inr (D, L) \<and> st_random st' = st_random st"
proof -
  let ?x = "(concat (concat xt), [bsz, D, L])"
  let ?cur = "(replicate bsz (real step), [bsz])"
  let ?tot = "(replicate bsz (real_of_int T), [bsz])"
  from assms(4) obtain den where
    den: "vectorEstOrt tts ?x emb (style_ttl style) lmt tmt ?cur ?tot = Inr den"
    by blast
  have sh: "shapeOf (reshape3 den bsz D L) = Inr (D, L)"
    using assms(1,2) by (rule shapeOf_reshape3)
  show ?thesis
  proof (cases cb)
    case None
    then show ?thesis
      using assms(5) den sh by (simp add: denoiseStep_def Let_def emit_def)
  next
    case (Some f)
    with assms(3) have "f (step + 1) T = None"
      by simp
    with Some show ?thesis
      using assms(5) den sh by (simp add: denoiseStep_def Let_def emit_def)
  qed
qed

lemma denoiseLoop_succeeds:
  assumes "0 < bsz" and "0 < D"
    and "case cb of None \<Rightarrow> True | Some f \<Rightarrow> \<forall>s T'. f s T' = None"
    and "\<forall>x emb' ttl' lm' tm' cur tot. \<exists>den. vectorEstOrt tts x emb' ttl' lm' tm' cur tot = Inr den"
    and "shapeOf xt = Inr (D, L)"
  shows "\<exists>st' xt'. denoiseLoop (denoiseStep tts style emb lmt tmt bsz T cb) T step xt st
             = (st', Inr xt')
           \<and> shapeOf xt' = Inr (D, L) \<and> st_random st' = st_random st"
  using assms(5)
proof (induction "nat (T - int step)" arbitrary: step xt st)
  case 0
  then have "T \<le> int step"
    by simp
  with "0.prems" show ?case
    by (simp add: denoiseLoop_zero)
next
  case (Suc n)
  then have lt: "int step < T"
    by linarith
  from denoiseStep_succeeds [OF assms(1-4) Suc.prems, where style = style and emb = emb
      and lmt = lmt and tmt = tmt and T = T and step = step and st = st]
  obtain st1 xt1 where
    b: "denoiseStep tts style emb lmt tmt bsz T cb step xt st = (st1, Inr xt1)"
    and sh: "shapeOf xt1 = Inr (D, L)" and rnd: "st_random st1 = st_random st"
    by blast
  have "n = nat (T - int (Suc step))"
    using Suc.hyps(2) by linarith
  from Suc.hyps(1) [OF this sh, where st = st1] obtain st' xt' where
    "denoiseLoop (denoiseStep tts style emb lmt tmt bsz T cb) T (Suc step) xt1 st1
       = (st', Inr xt')"
    and "shapeOf xt' = Inr (D, L)" and "st_random st' = st_random st1"
    by blast
  with lt b rnd show ?case
    by (simp add: denoiseLoop.simps [of _ T step])
qed

lemma st_random_emit: "st_random (emit e st) = st_random st"
  by (simp add: emit_def)

lemma st_trace_emit: "st_trace (emit e st) = st_trace st @ [e]"
  by (simp add: emit_def)

lemma infer_succeeds:
  fixes tts :: "TextToSpeech" and chunk lang :: jsstring and speed :: real
    and raw :: "real list" and st :: pstate
  assumes "doubleRounding rnd" and "isValidLang lang" and "speed \<noteq> 0"
  defines "p \<equiv> wrapLang lang (cleanText (tp_normalize tts) chunk)"
  defines "tit \<equiv> (map (tokenId (tp_indexer tts) p) [0..<length p], [1, length p])"
    and "tmt \<equiv> (replicate (length p) (1::real), [1, 1, length p])"
  assumes "dpOrt tts tit (style_dp style) tmt = Inr raw"
    and "textEncOrt tts tit (style_ttl style) tmt = Inr emb"
    and "raw \<noteq> []"
    and "0 < cfg_base_chunk_size tts * cfg_chunk_compress_factor tts"
    and "0 < cfg_latent_dim tts * cfg_chunk_compress_factor tts"
  defines "duration \<equiv> map (\<lambda>d. rnd (d / speed)) raw"
  defines "L \<equiv> nat (latentFrames rnd tts duration)"
  defines "D \<equiv> cfg_latent_dim tts * cfg_chunk_compress_factor tts"
  assumes "0 \<le> latentFrames rnd tts duration"
    and "T \<le> 0
         \<or> ((case cb of None \<Rightarrow> True | Some f \<Rightarrow> \<forall>s T'. f s T' = None)
            \<and> (\<forall>x emb' ttl' lm' tm' cur tot.
                  \<exists>den. vectorEstOrt tts x emb' ttl' lm' tm' cur tot = Inr den))"
    and "\<forall>data. \<exists>wav. vocoderOrt tts (data, [1, D, L]) = Inr wav"
  shows "\<exists>st' data wav.
      infer rnd tts [chunk] [lang] style T speed cb st = (st', Inr (wav, duration))
    \<and> vocoderOrt tts (data, [1, D, L]) = Inr wav
    \<and> (T \<le> 0 \<longrightarrow>
          (data, [1, D, L]) = initialLatentTensor rnd tts (st_random st) duration
        \<and> st_trace st'
            = st_trace st
              @ [DurationPredictorRun, TextEncoderRun,
                 VocoderRun (initialLatentTensor rnd tts (st_random st) duration)]
        \<and> st_random st' = (\<lambda>i. st_random st (i + 2 * (length duration * D * L))))"
proof -
  let ?cs = "cfg_base_chunk_size tts * cfg_chunk_compress_factor tts"
  let ?st2 = "emit TextEncoderRun (emit DurationPredictorRun st)"
  let ?xt0 = "maskedLatent rnd (st_random st) duration (cfg_sample_rate tts) ?cs D L"
  let ?xt0N = "map (map (map Num)) ?xt0"
  let ?lmt = "(concat (concat (map (\<lambda>d. [maskRow (latentLengthOf rnd
                                            (wavLengthOf rnd (cfg_sample_rate tts) d) ?cs) L])
                         duration)),
       [1::nat, 1, L])"
  let ?st0 = "?st2\<lparr>st_random := \<lambda>i. st_random ?st2 (i + 2 * (length duration * D * L))\<rparr>"
  have dne: "duration \<noteq> []"
    using assms(9) by (simp add: duration_def)
  have inf: "infer rnd tts [chunk] [lang] style T speed cb st
      = (case denoiseAndVocode rnd tts style emb tmt 1 T cb duration ?st2 of
           (st', Inl e) \<Rightarrow> (st', Inl e)
         | (st', Inr wav) \<Rightarrow> (st', Inr (wav, duration)))"
    unfolding duration_def tmt_def p_def
    using assms(2) assms(7,8) [unfolded tit_def tmt_def p_def] assms(3)
    by (rule infer_single)
  have dv: "denoiseAndVocode rnd tts style emb tmt 1 T cb duration ?st2
      = (case denoiseLoop (denoiseStep tts style emb ?lmt tmt 1 T cb) T 0 ?xt0N ?st0 of
           (st', Inl e) \<Rightarrow> (st', Inl e)
         | (st', Inr xt) \<Rightarrow> vocode tts 1 xt st')"
    using denoiseAndVocode_reaches_loop [OF assms(1) dne assms(10,15),
        where st = ?st2 and style = style and emb = emb and tmt = tmt and bsz = 1
          and T = T and cb = cb]
    by (simp only: st_random_emit L_def D_def)
  have sh0: "shapeOf ?xt0N = Inr (D, L)"
    using dne assms(11) unfolding D_def by (rule shapeOf_maskedLatent)
  have ilt: "initialLatentTensor rnd tts (st_random st) duration = (concat (concat ?xt0N), [1, D, L])"
    by (simp add: initialLatentTensor_def D_def L_def)
  show ?thesis
  proof (cases "T \<le> 0")
    case True
    let ?data = "concat (concat ?xt0N)"
    from assms(17) obtain wav where wav: "vocoderOrt tts (?data, [1, D, L]) = Inr wav"
      by blast
    have "denoiseLoop (denoiseStep tts style emb ?lmt tmt 1 T cb) T 0 ?xt0N ?st0
        = (?st0, Inr ?xt0N)"
      using True by (simp add: denoiseLoop_zero)
    with dv vocode_result [OF sh0 wav, where st = ?st0]
    have "denoiseAndVocode rnd tts style emb tmt 1 T cb duration ?st2
        = (emit (VocoderRun (?data, [1, D, L])) ?st0, Inr wav)"
      by simp
    with inf have "infer rnd tts [chunk] [lang] style T speed cb st
        = (emit (VocoderRun (?data, [1, D, L])) ?st0, Inr (wav, duration))"
      by simp
    moreover have "st_trace (emit (VocoderRun (?data, [1, D, L])) ?st0)
        = st_trace st
          @ [DurationPredictorRun, TextEncoderRun, VocoderRun (?data, [1, D, L])]"
      by (simp add: emit_def)
    moreover have "st_random (emit (VocoderRun (?data, [1, D, L])) ?st0)
        = (\<lambda>i. st_random st (i + 2 * (length duration * D * L)))"
      by (simp add: emit_def)
    ultimately show ?thesis
      using wav unfolding ilt by blast
  next
    case False
    with assms(16) have
      cbok: "case cb of None \<Rightarrow> True | Some f \<Rightarrow> \<forall>s T'. f s T' = None"
      and ve: "\<forall>x emb' ttl' lm' tm' cur tot.
                  \<exists>den. vectorEstOrt tts x emb' ttl' lm' tm' cur tot = Inr den"
      by blast+
    have one: "0 < (1::nat)"
      by simp
    have Dp: "0 < D"
      using assms(11) by (simp add: D_def)
    from denoiseLoop_succeeds [OF one Dp cbok ve sh0, where style = style and emb = emb
        and lmt = ?lmt and tmt = tmt and T = T and step = 0 and st = ?st0]
    obtain st1 xt1 where
      l: "denoiseLoop (denoiseStep tts style emb ?lmt tmt 1 T cb) T 0 ?xt0N ?st0
            = (st1, Inr xt1)"
      and sh1: "shapeOf xt1 = Inr (D, L)"
      by blast
    from assms(17) obtain wav where
      wav: "vocoderOrt tts (concat (concat xt1), [1, D, L]) = Inr wav"
      by blast
    from dv l vocode_result [OF sh1 wav, where st = st1]
    have "denoiseAndVocode rnd tts style emb tmt 1 T cb duration ?st2
        = (emit (VocoderRun (concat (concat xt1), [1, D, L])) st1, Inr wav)"
      by simp
    with inf have "infer rnd tts [chunk] [lang] style T speed cb st
        = (emit (VocoderRun (concat (concat xt1), [1, D, L])) st1,
           Inr (wav, duration))"
      by simp
    with wav False show ?thesis
      by blast
  qed
qed

lemma accumulate_nonneg:
  assumes "doubleRounding rnd" and "0 \<le> silenceDuration"
  shows "accumulate rnd sampleRate silenceDuration (wavCat, durCat) (wav, duration)
      = Inr (if wavCat = [] then (wav, hd duration)
             else (wavCat @ replicate (nat \<lfloor>rnd (silenceDuration * real sampleRate)\<rfloor>) 0 @ wav,
                   rnd (durCat + rnd (hd duration + silenceDuration))))"
proof -
  have "0 \<le> silenceDuration * real sampleRate"
    using assms(2) by simp
  then have "0 \<le> rnd (silenceDuration * real sampleRate)"
    by (rule doubleRounding_nonneg [OF assms(1)])
  then have "\<not> \<lfloor>rnd (silenceDuration * real sampleRate)\<rfloor> < 0"
    by simp
  then show ?thesis
    by (simp add: accumulate_def Let_def)
qed

lemma accumulate_seeded:
  assumes "doubleRounding rnd" and "0 \<le> silenceDuration" and "wavCat \<noteq> []"
  shows "accumulate rnd sampleRate silenceDuration (wavCat, durCat) r
      = Inr (wavCat @ replicate (nat \<lfloor>rnd (silenceDuration * real sampleRate)\<rfloor>) 0 @ fst r,
             rnd (durCat + rnd (hd (snd r) + silenceDuration)))"
  using accumulate_nonneg [OF assms(1,2), of sampleRate wavCat durCat "fst r" "snd r"] assms(3)
  by simp

lemma synthesizeChunks_seeded:
  assumes "doubleRounding rnd" and "0 \<le> silenceDuration"
    and "inferChunks rnd tts lang style T speed cb chunks st = (st', Inr results)"
    and "wavCat \<noteq> []"
  shows "synthesizeChunks rnd tts lang style T speed silenceDuration cb chunks (wavCat, durCat) st
      = (st', Inr (wavCat @ concat (map (\<lambda>r.
                replicate (nat \<lfloor>rnd (silenceDuration * real (cfg_sample_rate tts))\<rfloor>) 0 @ fst r)
                results),
              foldl (\<lambda>dur r. rnd (dur + rnd (hd (snd r) + silenceDuration))) durCat results))"
  using assms(3,4)
proof (induction chunks arbitrary: st results wavCat durCat)
  case Nil
  then show ?case by simp
next
  case (Cons chunk rest)
  obtain st1 r1 where i: "infer rnd tts [chunk] [lang] style T speed cb st = (st1, r1)"
    by (cases "infer rnd tts [chunk] [lang] style T speed cb st")
  with Cons.prems(1) obtain res1 where r1: "r1 = Inr res1"
    by (cases r1) auto
  obtain st2 r2 where ic: "inferChunks rnd tts lang style T speed cb rest st1 = (st2, r2)"
    by (cases "inferChunks rnd tts lang style T speed cb rest st1")
  with Cons.prems(1) i r1 obtain rs where r2: "r2 = Inr rs"
    by (cases r2) auto
  from Cons.prems(1) i r1 ic r2 have st2: "st2 = st'" and results: "results = res1 # rs"
    by simp_all
  let ?w = "wavCat @ replicate (nat \<lfloor>rnd (silenceDuration * real (cfg_sample_rate tts))\<rfloor>) 0
              @ fst res1"
  have "?w \<noteq> []"
    using Cons.prems(2) by simp
  from Cons.IH [OF ic [unfolded r2 st2] this,
      of "rnd (durCat + rnd (hd (snd res1) + silenceDuration))"]
  show ?case
    using i r1 accumulate_seeded [OF assms(1,2) Cons.prems(2), of "cfg_sample_rate tts" durCat res1]
    by (simp add: results)
qed

text \<open>
  The concatenation of \<open>call\<close> in closed form, for a first chunk with a non-empty
  waveform: the waveforms are joined with \<open>floor(silenceDuration * sampleRate)\<close> zero
  samples at every seam, and the durations are added from left to right, each later chunk's
  duration after \<open>silenceDuration\<close> has been added to it.
\<close>

lemma call_concatenation:
  assumes "doubleRounding rnd" and "snd (style_ttl style) = 1 # dims"
    and "chunkText v (if lang = str ''ko'' then 120 else 300) = Inr chunks"
    and "inferChunks rnd tts lang style totalStep speed cb chunks st = (st', Inr results)"
    and "results \<noteq> []" and "fst (hd results) \<noteq> []"
    and "0 \<le> silenceDuration"
  shows "TextToSpeech_call rnd tts v lang style totalStep speed silenceDuration cb st
      = (st', Inr (fst (hd results) @ concat (map (\<lambda>r.
                replicate (nat \<lfloor>rnd (silenceDuration * real (cfg_sample_rate tts))\<rfloor>) 0 @ fst r)
                (tl results)),
              [foldl (\<lambda>dur r. rnd (dur + rnd (hd (snd r) + silenceDuration)))
                 (hd (snd (hd results))) (tl results)]))"
proof (cases chunks)
  case Nil
  with assms(4,5) show ?thesis by simp
next
  case (Cons chunk rest)
  obtain st1 r1 where i: "infer rnd tts [chunk] [lang] style totalStep speed cb st = (st1, r1)"
    by (cases "infer rnd tts [chunk] [lang] style totalStep speed cb st")
  with assms(4) Cons obtain res1 where r1: "r1 = Inr res1"
    by (cases r1) auto
  obtain st2 r2 where
    ic: "inferChunks rnd tts lang style totalStep speed cb rest st1 = (st2, r2)"
    by (cases "inferChunks rnd tts lang style totalStep speed cb rest st1")
  with assms(4) Cons i r1 obtain rs where r2: "r2 = Inr rs"
    by (cases r2) auto
  from assms(4) Cons i r1 ic r2 have st2: "st2 = st'" and results: "results = res1 # rs"
    by simp_all
  have ne: "fst res1 \<noteq> []"
    using assms(6) results by simp
  have acc: "accumulate rnd (cfg_sample_rate tts) silenceDuration ([], 0) res1
      = Inr (fst res1, hd (snd res1))"
    using accumulate_nonneg [OF assms(1,7), of "cfg_sample_rate tts" "[]" 0 "fst res1" "snd res1"]
    by simp
  from synthesizeChunks_seeded [OF assms(1,7) ic [unfolded r2 st2] ne, of "hd (snd res1)"]
  have "synthesizeChunks rnd tts lang style totalStep speed silenceDuration cb chunks ([], 0) st
      = (st', Inr (fst (hd results) @ concat (map (\<lambda>r.
                replicate (nat \<lfloor>rnd (silenceDuration * real (cfg_sample_rate tts))\<rfloor>) 0 @ fst r)
                (tl results)),
              foldl (\<lambda>dur r. rnd (dur + rnd (hd (snd r) + silenceDuration)))
                 (hd (snd (hd results))) (tl results)))"
    using i r1 acc by (simp add: Cons results)
  with assms(2,3) show ?thesis
    by (simp add: TextToSpeech_call_def Let_def)
qed














lemma demo_texts:
  "wrapLang (str ''en'') (cleanText id (str ''A.'')) = str ''<en>A.</en>''"
  "wrapLang (str ''en'') (cleanText id (str ''Bb.'')) = str ''<en>Bb.</en>''"
  "wrapLang (str ''en'') (cleanText id (str ''Ccc.'')) = str ''<en>Ccc.</en>''"
  "wrapLang (str ''en'') (cleanText id (str ''Hi.'')) = str ''<en>Hi.</en>''"
  by (simp_all add: eval_defs removeDuplicate.simps)

lemma demo_lengths:
  "length (str ''<en>A.</en>'') = 11"
  "length (str ''<en>Bb.</en>'') = 12"
  "length (str ''<en>Ccc.</en>'') = 13"
  "length (str ''<en>Hi.</en>'') = 12"
  by (simp_all add: str_def)

lemma demo_style: "snd (style_ttl demoStyle) = 1 # [1]"
  by (simp add: demoStyle_def)

lemma roundDouble_demo:
  "roundDouble 1 = 1"
  "roundDouble (1 / 16) = 1 / 16"
  "roundDouble (5 / 8) = 5 / 8"
  "roundDouble 10 = 10"
proof -
  show "roundDouble 1 = 1"
    using roundDouble_of_int [of 1] by simp
  show "roundDouble (1 / 16) = 1 / 16"
    by (rule roundDouble_exact [of _ 1 "- 4"]) simp_all
  show "roundDouble (5 / 8) = 5 / 8"
    by (rule roundDouble_exact [of _ 5 "- 3"]) simp_all
  show "roundDouble 10 = 10"
    using roundDouble_of_int [of 10] by simp
qed

lemma demo_frames:
  "latentFrames roundDouble demoEngine [1 / 16] = 0"
  "latentFrames roundDouble demoEngine [1] = 2"
proof -
  have c: "latentLengthOf roundDouble w 5 = \<lceil>real_of_int w / 5\<rceil>" if "\<bar>w\<bar> \<le> 10" for w
    using latentLengthOf_ceiling [OF doubleRounding_roundDouble, of 5 w] that by simp
  have "wavLengthOf roundDouble 10 (1 / 16) = 0"
    by (simp add: wavLengthOf_def roundDouble_demo)
  then show "latentFrames roundDouble demoEngine [1 / 16] = 0"
    using c [of 0] by (simp add: latentFrames_def demoEngine_def)
  have "wavLengthOf roundDouble 10 1 = 10"
    by (simp add: wavLengthOf_def roundDouble_demo)
  then show "latentFrames roundDouble demoEngine [1] = 2"
    using c [of 10] by (simp add: latentFrames_def demoEngine_def)
qed

lemma demo_silence: "\<lfloor>roundDouble (double_0_3 * real (cfg_sample_rate demoEngine))\<rfloor> = 3"
  using roundDouble_tenths(1) by (simp add: double_0_3_def demoEngine_def)

lemma demo_infer:
  assumes "wrapLang (str ''en'') (cleanText id chunk) = p"
    and "d = (if length p \<le> 11 then 1 / 16 else 1)"
    and "latentFrames roundDouble demoEngine [d] = int L"
    and "T \<le> 1"
  shows "\<exists>st'. infer roundDouble demoEngine [chunk] [str ''en''] demoStyle T 1 None st
      = (st', Inr (replicate L (1 / 2), [d]))"
proof -
  let ?p = "wrapLang (str ''en'') (cleanText (tp_normalize demoEngine) chunk)"
  let ?tit = "(map (tokenId (tp_indexer demoEngine) ?p) [0..<length ?p], [1, length ?p])"
  let ?tmt = "(replicate (length ?p) (1::real), [1, 1, length ?p])"
  have p: "?p = p"
    using assms(1) by (simp add: demoEngine_def)
  have lang: "isValidLang (str ''en'')"
    by (simp add: isValidLang_def AVAILABLE_LANGS_def)
  have sp: "(1::real) \<noteq> 0"
    by simp
  have dp: "dpOrt demoEngine ?tit (style_dp demoStyle) ?tmt = Inr [d]"
    unfolding p by (simp add: demoEngine_def assms(2))
  have te: "textEncOrt demoEngine ?tit (style_ttl demoStyle) ?tmt = Inr ([], [])"
    by (simp add: demoEngine_def)
  have raw: "[d] \<noteq> []"
    by simp
  have cs: "0 < cfg_base_chunk_size demoEngine * cfg_chunk_compress_factor demoEngine"
    and D: "0 < cfg_latent_dim demoEngine * cfg_chunk_compress_factor demoEngine"
    by (simp_all add: demoEngine_def)
  have dur: "map (\<lambda>d. roundDouble (d / 1)) [d] = [d]"
    using assms(2) by (simp add: roundDouble_demo)
  have nn: "0 \<le> latentFrames roundDouble demoEngine (map (\<lambda>d. roundDouble (d / 1)) [d])"
    unfolding dur assms(3) by simp
  have loop: "T \<le> 0
         \<or> ((case None :: callback option of None \<Rightarrow> True | Some f \<Rightarrow> \<forall>s T'. f s T' = None)
            \<and> (\<forall>x emb' ttl' lm' tm' cur tot.
                  \<exists>den. vectorEstOrt demoEngine x emb' ttl' lm' tm' cur tot = Inr den))"
    by (simp add: demoEngine_def)
  have voc: "\<forall>data. \<exists>wav. vocoderOrt demoEngine
      (data, [1, cfg_latent_dim demoEngine * cfg_chunk_compress_factor demoEngine,
              nat (latentFrames roundDouble demoEngine (map (\<lambda>d. roundDouble (d / 1)) [d]))])
        = Inr wav"
    by (simp add: demoEngine_def)
  from infer_succeeds [OF doubleRounding_roundDouble lang sp dp te raw cs D nn loop voc,
      where st = st]
  obtain st' data wav where
    i: "infer roundDouble demoEngine [chunk] [str ''en''] demoStyle T 1 None st
          = (st', Inr (wav, map (\<lambda>d. roundDouble (d / 1)) [d]))"
    and w: "vocoderOrt demoEngine
      (data, [1, cfg_latent_dim demoEngine * cfg_chunk_compress_factor demoEngine,
              nat (latentFrames roundDouble demoEngine (map (\<lambda>d. roundDouble (d / 1)) [d]))])
        = Inr wav"
    by blast
  from w have "wav = replicate L (1 / 2)"
    unfolding dur assms(3) by (simp add: demoEngine_def)
  with i show ?thesis
    unfolding dur by (intro exI [of _ st']) simp
qed

lemma demo_infer_short:
  "\<exists>st'. infer roundDouble demoEngine [str ''A.''] [str ''en''] demoStyle 1 1 None st
      = (st', Inr ([], [1 / 16]))"
  using demo_infer [OF demo_texts(1), of "1 / 16" 0 1 st]
  by (simp add: demo_lengths demo_frames)

lemma demo_infer_long:
  assumes "wrapLang (str ''en'') (cleanText id chunk) = p" and "11 < length p"
  shows "\<exists>st'. infer roundDouble demoEngine [chunk] [str ''en''] demoStyle 1 1 None st
      = (st', Inr ([1 / 2, 1 / 2], [1]))"
  using demo_infer [OF assms(1), of 1 2 1 st] assms(2)
  by (simp add: demo_frames numeral_2_eq_2)

text \<open>
  The concatenation at two paragraphs of 1 s each (two samples each) and a
  \<open>silenceDuration\<close> of 0.3: the double product \<open>0.3 * 10\<close> is \<open>3\<close>, so three zero
  samples stand at the seam, and the reported duration \<open>1 + (1 + 0.3)\<close> is the double
  nearest to 2.3. At a sample rate of 44100 the same \<open>silenceDuration\<close> gives 13230 zero
  samples.
\<close>

lemma roundDouble_sums:
  "roundDouble (1 + double_0_3) = 5854679515581645 / 2 ^ 52"
  "roundDouble (10358279142952141 / 4503599627370496) = 2589569785738035 / 1125899906842624"
  "roundDouble (double_0_3 * 44100) = 13230"
proof -
  show "roundDouble (1 + double_0_3) = 5854679515581645 / 2 ^ 52"
    unfolding double_0_3_def
    by (subst roundDouble_eval [of 0]) (simp_all add: roundHalfEven_def)
  show "roundDouble (10358279142952141 / 4503599627370496) = 2589569785738035 / 1125899906842624"
    by (subst roundDouble_eval [of 1]) (simp_all add: roundHalfEven_def)
  show "roundDouble (double_0_3 * 44100) = 13230"
    unfolding double_0_3_def
    by (subst roundDouble_eval [of 13]) (simp_all add: roundHalfEven_def)
qed

lemma demo_concatenation:
  "snd (TextToSpeech_call roundDouble demoEngine
          (JSString (str ''Bb.'' @ [0x0A, 0x0A] @ str ''Ccc.''))
          (str ''en'') demoStyle 1 1 double_0_3 None demoState)
     = Inr ([1 / 2, 1 / 2, 0, 0, 0, 1 / 2, 1 / 2], [2589569785738035 / 2 ^ 50])"
proof -
  let ?v = "JSString (str ''Bb.'' @ [0x0A, 0x0A] @ str ''Ccc.'')"
  let ?results = "[([1 / 2, 1 / 2], [1]), ([1 / 2, 1 / 2], [1])] :: (real list \<times> real list) list"
  have c: "chunkText ?v (if str ''en'' = str ''ko'' then 120 else 300)
      = Inr [str ''Bb.'', str ''Ccc.'']"
    by (simp add: chunk_defs)
  from demo_infer_long [OF demo_texts(2), of demoState] obtain st1 where
    i1: "infer roundDouble demoEngine [str ''Bb.''] [str ''en''] demoStyle 1 1 None demoState
           = (st1, Inr ([1 / 2, 1 / 2], [1]))"
    by (auto simp: demo_lengths)
  from demo_infer_long [OF demo_texts(3), of st1] obtain st2 where
    i2: "infer roundDouble demoEngine [str ''Ccc.''] [str ''en''] demoStyle 1 1 None st1
           = (st2, Inr ([1 / 2, 1 / 2], [1]))"
    by (auto simp: demo_lengths)
  have ic: "inferChunks roundDouble demoEngine (str ''en'') demoStyle 1 1 None
      [str ''Bb.'', str ''Ccc.''] demoState = (st2, Inr ?results)"
    by (simp add: i1 i2)
  have sil: "0 \<le> double_0_3"
    by (simp add: double_0_3_def)
  have ne: "?results \<noteq> []" and w1: "fst (hd ?results) \<noteq> []"
    by simp_all
  from call_concatenation [OF doubleRounding_roundDouble demo_style c ic ne w1 sil]
  show ?thesis
    by (simp add: demo_silence roundDouble_sums numeral_3_eq_3)
qed

text \<open>
  C7, empty first waveform. The text has the two paragraphs \<open>A.\<close> and \<open>Bb.\<close>; the first
  has a duration of 0.0625 s, for which the latent has no frame and the vocoder returns no
  sample, the second a duration of 1 s and two samples. After the first chunk \<open>wavCat\<close> is
  still empty, so the test \<open>wavCat.length === 0\<close> takes the second chunk for the first
  one: it seeds the accumulator again, no silence is inserted, and the reported duration is
  the second chunk's 1 s, without the first chunk's duration and without
  \<open>silenceDuration\<close>.
\<close>

theorem C7_reseed_after_empty_waveform:
  "snd (inferChunks roundDouble demoEngine (str ''en'') demoStyle 1 1 None
          [str ''A.'', str ''Bb.''] demoState)
     = Inr [([], [1 / 16]), ([1 / 2, 1 / 2], [1])]
   \<and> snd (TextToSpeech_call roundDouble demoEngine
            (JSString (str ''A.'' @ [0x0A, 0x0A] @ str ''Bb.''))
            (str ''en'') demoStyle 1 1 double_0_3 None demoState)
     = Inr ([1 / 2, 1 / 2], [1])
   \<and> [] @ replicate (nat \<lfloor>roundDouble (double_0_3 * real (cfg_sample_rate demoEngine))\<rfloor>) 0
         @ [1 / 2, 1 / 2]
       = [0, 0, 0, 1 / 2, 1 / 2 :: real]
   \<and> 1 < roundDouble (1 / 16 + roundDouble (1 + double_0_3))"
proof (intro conjI)
  let ?v = "JSString (str ''A.'' @ [0x0A, 0x0A] @ str ''Bb.'')"
  have c: "chunkText ?v (if str ''en'' = str ''ko'' then 120 else 300)
      = Inr [str ''A.'', str ''Bb.'']"
    by (simp add: chunk_defs)
  from demo_infer_short [of demoState] obtain st1 where
    i1: "infer roundDouble demoEngine [str ''A.''] [str ''en''] demoStyle 1 1 None demoState
           = (st1, Inr ([], [1 / 16]))"
    by blast
  from demo_infer_long [OF demo_texts(2), of st1] obtain st2 where
    i2: "infer roundDouble demoEngine [str ''Bb.''] [str ''en''] demoStyle 1 1 None st1
           = (st2, Inr ([1 / 2, 1 / 2], [1]))"
    by (auto simp: demo_lengths)
  show "snd (inferChunks roundDouble demoEngine (str ''en'') demoStyle 1 1 None
      [str ''A.'', str ''Bb.''] demoState) = Inr [([], [1 / 16]), ([1 / 2, 1 / 2], [1])]"
    by (simp add: i1 i2)
  have a1: "accumulate roundDouble (cfg_sample_rate demoEngine) double_0_3 ([], 0) ([], [1 / 16])
      = Inr ([], 1 / 16)"
    by (simp add: accumulate_def)
  have a2: "accumulate roundDouble (cfg_sample_rate demoEngine) double_0_3 ([], 1 / 16)
        ([1 / 2, 1 / 2], [1])
      = Inr ([1 / 2, 1 / 2], 1)"
    by (simp add: accumulate_def)
  have "synthesizeChunks roundDouble demoEngine (str ''en'') demoStyle 1 1 double_0_3 None
      [str ''A.'', str ''Bb.''] ([], 0) demoState = (st2, Inr ([1 / 2, 1 / 2], 1))"
    by (simp add: i1 i2 a1 a2)
  with c show "snd (TextToSpeech_call roundDouble demoEngine ?v (str ''en'') demoStyle 1 1
      double_0_3 None demoState) = Inr ([1 / 2, 1 / 2], [1])"
    by (simp add: TextToSpeech_call_def demoStyle_def Let_def)
  show "[] @ replicate (nat \<lfloor>roundDouble (double_0_3 * real (cfg_sample_rate demoEngine))\<rfloor>) 0
         @ [1 / 2, 1 / 2]
       = [0, 0, 0, 1 / 2, 1 / 2 :: real]"
    unfolding demo_silence by (simp add: numeral_3_eq_3)
  have "roundDouble 1 \<le> roundDouble (1 + double_0_3)"
    by (rule roundDouble_mono) (simp add: double_0_3_def)
  then have "1 + 1 / 16 \<le> 1 / 16 + roundDouble (1 + double_0_3)"
    by (simp add: roundDouble_demo)
  then have "roundDouble (1 + 1 / 16) \<le> roundDouble (1 / 16 + roundDouble (1 + double_0_3))"
    by (rule roundDouble_mono)
  moreover have "roundDouble (1 + 1 / 16) = 1 + 1 / 16"
    by (rule roundDouble_exact [of _ 17 "- 4"]) simp_all
  ultimately show "1 < roundDouble (1 / 16 + roundDouble (1 + double_0_3))"
    by simp
qed

lemma infer_first_callback_throws:
  fixes tts :: "TextToSpeech" and chunk lang :: jsstring and speed :: real
    and raw :: "real list" and st :: pstate
  assumes "doubleRounding rnd" and "isValidLang lang" and "speed \<noteq> 0"
  defines "p \<equiv> wrapLang lang (cleanText (tp_normalize tts) chunk)"
  defines "tit \<equiv> (map (tokenId (tp_indexer tts) p) [0..<length p], [1, length p])"
    and "tmt \<equiv> (replicate (length p) (1::real), [1, 1, length p])"
  assumes "dpOrt tts tit (style_dp style) tmt = Inr raw"
    and "textEncOrt tts tit (style_ttl style) tmt = Inr emb"
    and "raw \<noteq> []"
    and "0 < cfg_base_chunk_size tts * cfg_chunk_compress_factor tts"
    and "0 \<le> latentFrames rnd tts (map (\<lambda>d. rnd (d / speed)) raw)"
    and "0 < T" and "f 1 T = Some thrown"
  shows "\<exists>st'. infer rnd tts [chunk] [lang] style T speed (Some f) st
             = (st', Inl (CallbackError thrown))
           \<and> st_trace st' = st_trace st @ [DurationPredictorRun, TextEncoderRun, ProgressCall 1 T]"
proof -
  let ?st2 = "emit TextEncoderRun (emit DurationPredictorRun st)"
  let ?duration = "map (\<lambda>d. rnd (d / speed)) raw"
  have dne: "?duration \<noteq> []"
    using assms(9) by simp
  have inf: "infer rnd tts [chunk] [lang] style T speed (Some f) st
      = (case denoiseAndVocode rnd tts style emb tmt 1 T (Some f) ?duration ?st2 of
           (st', Inl e) \<Rightarrow> (st', Inl e)
         | (st', Inr wav) \<Rightarrow> (st', Inr (wav, ?duration)))"
    unfolding tmt_def p_def
    using assms(2) assms(7,8) [unfolded tit_def tmt_def p_def] assms(3)
    by (rule infer_single)
  note dv = denoiseAndVocode_reaches_loop [OF assms(1) dne assms(10,11),
        where st = ?st2 and style = style and emb = emb and tmt = tmt and bsz = 1
          and T = T and cb = "Some f"]
  show ?thesis
    unfolding inf dv
      denoiseLoop_first_throws [where f = f and T = T and thrown = thrown, OF assms(12,13)]
    by (simp add: emit_def)
qed

lemma demo_throwing_call:
  "\<exists>st'. TextToSpeech_call roundDouble demoEngine (JSString (str ''Hi.'')) (str ''en'') demoStyle
          2 1 double_0_3 (Some throwingCallback) demoState
        = (st', Inl (CallbackError (str ''boom'')))
       \<and> st_trace st' = [DurationPredictorRun, TextEncoderRun, ProgressCall 1 2]"
proof -
  let ?p = "wrapLang (str ''en'') (cleanText (tp_normalize demoEngine) (str ''Hi.''))"
  let ?tit = "(map (tokenId (tp_indexer demoEngine) ?p) [0..<length ?p], [1, length ?p])"
  let ?tmt = "(replicate (length ?p) (1::real), [1, 1, length ?p])"
  have lang: "isValidLang (str ''en'')"
    by (simp add: isValidLang_def AVAILABLE_LANGS_def)
  have sp: "(1::real) \<noteq> 0"
    by simp
  have p: "?p = str ''<en>Hi.</en>''"
    using demo_texts(4) by (simp add: demoEngine_def)
  have dp: "dpOrt demoEngine ?tit (style_dp demoStyle) ?tmt = Inr [1]"
    unfolding p by (simp add: demoEngine_def demo_lengths)
  have te: "textEncOrt demoEngine ?tit (style_ttl demoStyle) ?tmt = Inr ([], [])"
    by (simp add: demoEngine_def)
  have raw: "[1::real] \<noteq> []"
    by simp
  have cs: "0 < cfg_base_chunk_size demoEngine * cfg_chunk_compress_factor demoEngine"
    by (simp add: demoEngine_def)
  have nn: "0 \<le> latentFrames roundDouble demoEngine (map (\<lambda>d. roundDouble (d / 1)) [1])"
    by (simp add: roundDouble_demo demo_frames)
  have T: "(0::int) < 2"
    by simp
  have f: "throwingCallback 1 2 = Some (str ''boom'')"
    by (simp add: throwingCallback_def)
  from infer_first_callback_throws [where rnd = roundDouble and tts = demoEngine
      and chunk = "str ''Hi.''" and lang = "str ''en''" and speed = 1 and style = demoStyle
      and raw = "[1]" and emb = "([], [])" and T = 2 and f = throwingCallback
      and thrown = "str ''boom''" and st = demoState,
      OF doubleRounding_roundDouble lang sp dp te raw cs nn T f]
  obtain st' where
    i: "infer roundDouble demoEngine [str ''Hi.''] [str ''en''] demoStyle 2 1
          (Some throwingCallback) demoState
          = (st', Inl (CallbackError (str ''boom'')))"
    and tr: "st_trace st' = st_trace demoState
          @ [DurationPredictorRun, TextEncoderRun, ProgressCall 1 2]"
    by blast
  have c: "chunkText (JSString (str ''Hi.'')) (if str ''en'' = str ''ko'' then 120 else 300)
      = Inr [str ''Hi.'']"
    by (simp add: chunk_defs)
  have "TextToSpeech_call roundDouble demoEngine (JSString (str ''Hi.'')) (str ''en'') demoStyle
          2 1 double_0_3 (Some throwingCallback) demoState
      = (st', Inl (CallbackError (str ''boom'')))"
    using c i by (simp add: TextToSpeech_call_def demoStyle_def Let_def)
  with tr show ?thesis
    by (simp add: demoState_def)
qed

text \<open>
  C2 at a callback that always throws, on the text \<open>Hi.\<close> with two steps: the callback is
  invoked with \<open>(1, 2)\<close>, and the call fails with what it threw.
\<close>

theorem C2_progress_callback_witness:
  "\<exists>st' r new.
      TextToSpeech_call roundDouble demoEngine (JSString (str ''Hi.'')) (str ''en'') demoStyle
        2 1 double_0_3 (Some throwingCallback) demoState = (st', r)
    \<and> st_trace st' = st_trace demoState @ new
    \<and> callbackBeforeEachStep 2 new
    \<and> ProgressCall 1 2 \<in> set new
    \<and> r = Inl (CallbackError (str ''boom''))"
proof -
  obtain st' r where
    c: "TextToSpeech_call roundDouble demoEngine (JSString (str ''Hi.'')) (str ''en'') demoStyle
          2 1 double_0_3 (Some throwingCallback) demoState = (st', r)"
    by (cases "TextToSpeech_call roundDouble demoEngine (JSString (str ''Hi.'')) (str ''en'')
          demoStyle 2 1 double_0_3 (Some throwingCallback) demoState") blast
  from C2_progress_callback [OF c] obtain new where
    tr: "st_trace st' = st_trace demoState @ new"
    and before: "callbackBeforeEachStep 2 new"
    and abort: "\<forall>s T thrown. ProgressCall s T \<in> set new
          \<longrightarrow> throwingCallback s T = Some thrown \<longrightarrow> r = Inl (CallbackError thrown)"
    by blast
  from demo_throwing_call c
  have "st_trace st' = [DurationPredictorRun, TextEncoderRun, ProgressCall 1 2]"
    by auto
  with tr have "new = [DurationPredictorRun, TextEncoderRun, ProgressCall 1 2]"
    by (simp add: demoState_def)
  then have mem: "ProgressCall 1 2 \<in> set new"
    by simp
  have "throwingCallback 1 2 = Some (str ''boom'')"
    by (simp add: throwingCallback_def)
  with abort mem have "r = Inl (CallbackError (str ''boom''))"
    by blast
  with c tr before mem show ?thesis
    by blast
qed

text \<open>
  C2, exception in the callback: on the text \<open>Hi.\<close> with two steps and a callback that
  throws, the call ends with the callback's exception after the first invocation; neither the
  vector estimator nor the vocoder runs, and no waveform is returned.
\<close>

theorem C2_callback_abort_counterexample:
  "snd (TextToSpeech_call roundDouble demoEngine (JSString (str ''Hi.'')) (str ''en'') demoStyle
          2 1 double_0_3 (Some throwingCallback) demoState)
     = Inl (CallbackError (str ''boom''))
   \<and> st_trace (fst (TextToSpeech_call roundDouble demoEngine (JSString (str ''Hi.''))
          (str ''en'') demoStyle 2 1 double_0_3 (Some throwingCallback) demoState))
     = [DurationPredictorRun, TextEncoderRun, ProgressCall 1 2]"
  using demo_throwing_call by auto



subsection \<open>The WAV encoder\<close>

lemma rd16_le16: "rd16 (le16 w @ bs) = w"
  unfolding rd16_def le16_def
  apply simp
  apply (rule bit_word_eqI)
  apply (auto simp add: bit_simps)
  done

lemma rd16_le16_only: "rd16 (le16 w) = w"
  using rd16_le16 [of w "[]"] by simp

lemma length_le16: "length (le16 w) = 2"
  by (simp add: le16_def)

lemma length_wavHeader: "length (wavHeader n sampleRate) = 44"
  by (simp add: wavHeader_def writeString_def le16_def le32_def)

lemma drop_concat_le16:
  "i < length ws \<Longrightarrow> \<exists>bs. drop (2 * i) (concat (map le16 ws)) = le16 (ws ! i) @ bs"
proof (induction ws arbitrary: i)
  case Nil
  then show ?case by simp
next
  case (Cons w ws)
  show ?case
  proof (cases i)
    case 0
    then show ?thesis by simp
  next
    case (Suc j)
    with Cons.prems have "j < length ws" by simp
    from Cons.IH [OF this] obtain bs
      where "drop (2 * j) (concat (map le16 ws)) = le16 (ws ! j) @ bs" by blast
    moreover have "drop (2 * Suc j) (le16 w @ concat (map le16 ws))
        = drop (2 * j) (concat (map le16 ws))"
      by (simp add: length_le16)
    ultimately show ?thesis using Suc by simp
  qed
qed

lemma quantize_bounds:
  assumes "doubleRounding rnd" and "- 1 \<le> c" and "c \<le> 1"
  shows "- 32767 \<le> \<lfloor>rnd (c * 32767)\<rfloor>" and "\<lfloor>rnd (c * 32767)\<rfloor> \<le> 32767"
proof -
  have lo: "rnd (real_of_int (- 32767)) = real_of_int (- 32767)"
    by (rule doubleRounding_of_int [OF assms(1)]) simp
  have hi: "rnd (real_of_int 32767) = real_of_int 32767"
    by (rule doubleRounding_of_int [OF assms(1)]) simp
  have "real_of_int (- 32767) \<le> c * 32767"
    using assms(2) by simp
  then have "rnd (real_of_int (- 32767)) \<le> rnd (c * 32767)"
    by (rule doubleRounding_mono [OF assms(1)])
  then show "- 32767 \<le> \<lfloor>rnd (c * 32767)\<rfloor>"
    unfolding lo by (simp add: le_floor_iff)
  have "c * 32767 \<le> real_of_int 32767"
    using assms(3) by simp
  then have "rnd (c * 32767) \<le> rnd (real_of_int 32767)"
    by (rule doubleRounding_mono [OF assms(1)])
  then show "\<lfloor>rnd (c * 32767)\<rfloor> \<le> 32767"
    unfolding hi by (simp add: floor_le_iff)
qed

lemma sint_int16:
  assumes "- 32767 \<le> n" and "n \<le> 32767"
  shows "sint (word_of_int n :: 16 word) = n"
proof -
  have "- (2 ^ (LENGTH(16) - 1)) \<le> n" "n < 2 ^ (LENGTH(16) - 1)"
    using assms by simp_all
  then show ?thesis
    by (simp add: sint_sbintrunc' signed_take_bit_int_eq_self)
qed

lemma dataSample_writeWavFile:
  assumes "i < length audioData"
  shows "dataSample (writeWavFile rnd audioData sampleRate) i = sint (int16Data rnd audioData ! i)"
proof -
  from assms have "i < length (int16Data rnd audioData)"
    by (simp add: int16Data_def)
  from drop_concat_le16 [OF this] obtain bs where
    "drop (2 * i) (concat (map le16 (int16Data rnd audioData)))
       = le16 (int16Data rnd audioData ! i) @ bs" by blast
  then have "drop (44 + 2 * i) (writeWavFile rnd audioData sampleRate)
       = le16 (int16Data rnd audioData ! i) @ bs"
    by (simp add: writeWavFile_def length_wavHeader)
  then show ?thesis
    by (simp add: dataSample_def rd16_le16)
qed

lemma roundDouble_samples:
  "roundDouble (32767 / 4) = 32767 / 4"
  "roundDouble (- (32767 / 2)) = - (32767 / 2)"
  "roundDouble (1152921504606846975 / 1152921504606846976) = 1"
proof -
  show "roundDouble (32767 / 4) = 32767 / 4"
    by (rule roundDouble_exact [of _ 32767 "- 2"]) simp_all
  show "roundDouble (- (32767 / 2)) = - (32767 / 2)"
    by (rule roundDouble_exact [of _ "- 32767" "- 1"]) simp_all
  show "roundDouble (1152921504606846975 / 1152921504606846976) = 1"
    by (subst roundDouble_eval [of "- 1"]) (simp_all add: roundHalfEven_def)
qed

text \<open>
  C3 (as the code has it). Every sample of the data chunk is the floor of the double
  product of the clamped sample and 32767: the product is rounded toward minus infinity,
  not toward zero. An infinite sample is clamped like a finite one; \<open>NaN\<close> is written
  as \<open>0\<close>.
\<close>

theorem C3_quantize_floor:
  assumes "doubleRounding rnd" and "i < length audioData"
  shows "dataSample (writeWavFile rnd audioData sampleRate) i
     = (case audioData ! i of
          Num x \<Rightarrow> \<lfloor>rnd (max (- 1) (min 1 x) * 32767)\<rfloor>
        | PosInfinity \<Rightarrow> 32767
        | NegInfinity \<Rightarrow> - 32767
        | NaN \<Rightarrow> 0)"
proof -
  have s: "dataSample (writeWavFile rnd audioData sampleRate) i
      = sint (case quantize rnd (audioData ! i) of
                Some n \<Rightarrow> word_of_int n | None \<Rightarrow> (0 :: 16 word))"
    using assms(2) by (simp add: dataSample_writeWavFile int16Data_def)
  have q: "sint (word_of_int \<lfloor>rnd (c * 32767)\<rfloor> :: 16 word) = \<lfloor>rnd (c * 32767)\<rfloor>"
    if "- 1 \<le> c" "c \<le> 1" for c
    using quantize_bounds [OF assms(1) that] by (rule sint_int16)
  have p1: "rnd 32767 = 32767"
    using doubleRounding_of_int [OF assms(1), of 32767] by simp
  have m1: "rnd (- 32767) = - 32767"
    using doubleRounding_of_int [OF assms(1), of "- 32767"] by simp
  show ?thesis
  proof (cases "audioData ! i")
    case (Num x)
    then show ?thesis
      using q [of "max (- 1) (min 1 x)"] by (simp add: s quantize_def clamped_def)
  next
    case PosInfinity
    then show ?thesis
      using q [of 1] by (simp add: s quantize_def clamped_def p1)
  next
    case NegInfinity
    then show ?thesis
      using q [of "- 1"] by (simp add: s quantize_def clamped_def m1)
  next
    case NaN
    then show ?thesis
      by (simp add: s quantize_def clamped_def)
  qed
qed

text \<open>
  C3 at the samples \<open>0.25\<close>, \<open>-0.5\<close>, the double nearest to \<open>1 / 32767\<close> (whose double
  product with 32767 is \<open>1\<close>, while the exact product is below \<open>1\<close>) and \<open>NaN\<close>.
\<close>

theorem C3_quantize_floor_witness:
  "dataSample (writeWavFile roundDouble
       [Num (1 / 4), Num (- 1 / 2), Num (35185445863425 / 2 ^ 60), NaN] 16000) 0 = 8191
   \<and> dataSample (writeWavFile roundDouble
       [Num (1 / 4), Num (- 1 / 2), Num (35185445863425 / 2 ^ 60), NaN] 16000) 1 = - 16384
   \<and> dataSample (writeWavFile roundDouble
       [Num (1 / 4), Num (- 1 / 2), Num (35185445863425 / 2 ^ 60), NaN] 16000) 2 = 1
   \<and> dataSample (writeWavFile roundDouble
       [Num (1 / 4), Num (- 1 / 2), Num (35185445863425 / 2 ^ 60), NaN] 16000) 3 = 0"
proof -
  let ?xs = "[Num (1 / 4), Num (- 1 / 2), Num (35185445863425 / 2 ^ 60), NaN]"
  note t = C3_quantize_floor [OF doubleRounding_roundDouble, where audioData = ?xs
      and sampleRate = 16000]
  have "dataSample (writeWavFile roundDouble ?xs 16000) 0 = 8191"
    using t [of 0] by (simp add: roundDouble_samples(1))
  moreover have "dataSample (writeWavFile roundDouble ?xs 16000) 1 = - 16384"
    using t [of 1] by (simp add: roundDouble_samples(2))
  moreover have "dataSample (writeWavFile roundDouble ?xs 16000) 2 = 1"
    using t [of 2] by (simp add: roundDouble_samples(3))
  moreover have "dataSample (writeWavFile roundDouble ?xs 16000) 3 = 0"
    using t [of 3] by simp
  ultimately show ?thesis by simp
qed

text \<open>
  C3 (as stated) fails at the sample \<open>-0.5\<close>: the product \<open>-16383.5\<close> is written as
  \<open>-16384\<close>, while truncation toward zero gives \<open>-16383\<close>.
\<close>

theorem C3_truncation_counterexample:
  "dataSample (writeWavFile roundDouble [Num (- 1 / 2)] 16000) 0 = - 16384
   \<and> truncate_toward_zero (roundDouble (max (- 1) (min 1 (- 1 / 2)) * 32767)) = - 16383"
proof
  have "dataSample (writeWavFile roundDouble [Num (- 1 / 2)] 16000) 0
      = sint (word_of_int \<lfloor>roundDouble (- (32767 / 2))\<rfloor> :: 16 word)"
    by (simp add: dataSample_writeWavFile int16Data_def quantize_def clamped_def)
  also have "\<dots> = - 16384"
    by (simp add: roundDouble_samples(2))
  finally show "dataSample (writeWavFile roundDouble [Num (- 1 / 2)] 16000) 0 = - 16384" .
  show "truncate_toward_zero (roundDouble (max (- 1) (min 1 (- 1 / 2)) * 32767)) = - 16383"
    by (simp add: truncate_toward_zero_def roundDouble_samples(2))
qed

end
